theory Spec2Isabelle
  imports Main "HOL-Library.Word"
begin

section \<open>The program: Stabilization.cpp\<close>

text \<open>
  A line of nodes, each holding a binary primary value and an integer secondary value,
  is driven to a legal configuration (all primary values equal) by a randomly scheduled
  local rule. The model below follows the two classes of the source, \<open>Node\<close> and
  \<open>System\<close>, method by method.

  Conventions of the embedding:
  \<^item> a C++ \<open>int\<close> field is a 32-bit word, read as two's complement by \<open>sint\<close>; signed
    overflow is undefined behaviour in C++ and is the error \<open>SignedOverflow\<close>;
  \<^item> \<open>Node*\<close> is an index into the array \<open>member\<close> (\<open>None\<close> is \<open>NULL\<close>); the index may lie
    one past the end of the array, as the address \<open>&member[i + 1]\<close> may;
  \<^item> reading or writing through a pointer checks it: \<open>NULL\<close> gives \<open>NullPointer\<close>, an
    index outside the array gives \<open>OutOfBounds\<close>;
  \<^item> every method of \<open>System\<close> takes the object and returns either an error or its
    result together with the object after the call;
  \<^item> \<open>rand()\<close> is a parameter: the non-negative number the call returns;
  \<^item> output is not modelled: \<open>Node::Print\<close>, \<open>System::Print\<close> and the text written by
    \<open>Stabilize\<close> and \<open>main\<close> are left out.
\<close>

datatype error =
    BadArrayNewLength
  | BadAlloc
  | NullPointer
  | OutOfBounds
  | DivisionByZero
  | SignedOverflow
  | MissingReturn

type_synonym cint = "32 word"

text \<open>\<open>const int M = 20;\<close>\<close>

definition M :: cint where
  "M = 20"

text \<open>Addition of two \<open>int\<close> values; the result must fit, otherwise the behaviour is undefined.\<close>

definition int_add :: "cint \<Rightarrow> cint \<Rightarrow> error + cint" where
  "int_add a b =
     (if sint a + sint b < - (2 ^ 31) \<or> 2 ^ 31 - 1 < sint a + sint b
      then Inl SignedOverflow
      else Inr (a + b))"

subsection \<open>class Node\<close>

record Node =
  primary :: cint
  secondary :: cint
  left :: "nat option"
  right :: "nat option"

text \<open>The default constructor \<open>Node()\<close>.\<close>

definition Node_ctor :: Node where
  "Node_ctor = \<lparr>primary = 0, secondary = 5, left = None, right = None\<rparr>"

definition Equal :: "Node \<Rightarrow> Node \<Rightarrow> bool" where
  "Equal n other = (if primary n = primary other then True else False)"

definition Update :: "Node \<Rightarrow> Node" where
  "Update n = (if primary n = 0 then n\<lparr>primary := 1\<rparr> else n\<lparr>primary := 0\<rparr>)"

subsection \<open>class System\<close>

text \<open>
  \<open>member\<close> is the array allocated by the constructor (the field is called \<open>member_arr\<close>
  here), \<open>node\<close> the pointer to the current node. A \<open>System\<close> object exists only when
  the allocation succeeded, so its \<open>SYSTEM_SIZE\<close> is not negative.
\<close>

record System =
  SYSTEM_SIZE :: nat
  member_arr :: "Node list"
  node :: nat

definition load :: "System \<Rightarrow> nat \<Rightarrow> error + Node" where
  "load s p = (if p < length (member_arr s) then Inr (member_arr s ! p) else Inl OutOfBounds)"

definition load_ptr :: "System \<Rightarrow> nat option \<Rightarrow> error + Node" where
  "load_ptr s p = (case p of None \<Rightarrow> Inl NullPointer | Some i \<Rightarrow> load s i)"

definition store :: "System \<Rightarrow> nat \<Rightarrow> Node \<Rightarrow> error + System" where
  "store s p n =
     (if p < length (member_arr s) then Inr (s\<lparr>member_arr := (member_arr s)[p := n]\<rparr>)
      else Inl OutOfBounds)"

text \<open>
  The loop of the constructor, lines 99 to 110. The first matching branch wins: index 0 is
  "the first node" also when it is the last one.
\<close>

function ctor_loop :: "nat \<Rightarrow> nat \<Rightarrow> Node list \<Rightarrow> error + Node list" where
  "ctor_loop N i mem =
     (if i < N then
        (if length mem \<le> i then Inl OutOfBounds
         else if i = 0 then
           ctor_loop N (i + 1) (mem[i := (mem ! i)\<lparr>right := Some (i + 1)\<rparr>])
         else if i = N - 1 then
           ctor_loop N (i + 1) (mem[i := (mem ! i)\<lparr>left := Some (i - 1)\<rparr>])
         else
           ctor_loop N (i + 1) (mem[i := (mem ! i)\<lparr>left := Some (i - 1), right := Some (i + 1)\<rparr>]))
      else Inr mem)"
  by pat_completeness auto
termination
  by (relation "measure (\<lambda>(N, i, mem). N - i)") auto

declare ctor_loop.simps [simp del]

text \<open>
  \<open>System(int _SYSTEM_SIZE)\<close>. \<open>new Node[SYSTEM_SIZE]\<close> of a negative length throws
  \<open>std::bad_array_new_length\<close>. Of any other length, 0 included, it throws
  \<open>std::bad_alloc\<close> when the free store cannot provide the array; the program does not
  decide that, so it is a parameter: \<open>room k\<close> says whether an array of \<open>k\<close> nodes can be
  allocated. Either exception leaves the constructor, and no object exists.
\<close>

definition System_ctor_on :: "(nat \<Rightarrow> bool) \<Rightarrow> cint \<Rightarrow> error + System" where
  "System_ctor_on room n =
     (if sint n < 0 then Inl BadArrayNewLength
      else if \<not> room (nat (sint n)) then Inl BadAlloc
      else case ctor_loop (nat (sint n)) 0 (replicate (nat (sint n)) Node_ctor) of
             Inl e \<Rightarrow> Inl e
           | Inr mem \<Rightarrow> Inr \<lparr>SYSTEM_SIZE = nat (sint n), member_arr = mem, node = 0\<rparr>)"

text \<open>The constructor on a free store that provides the array asked for.\<close>

definition System_ctor :: "cint \<Rightarrow> error + System" where
  "System_ctor n = System_ctor_on (\<lambda>k. True) n"

text \<open>A free store with room for arrays of up to \<open>c\<close> nodes.\<close>

definition room_upto :: "nat \<Rightarrow> nat \<Rightarrow> bool" where
  "room_upto c k = (k \<le> c)"

text \<open>\<open>SelectNode\<close>; \<open>r\<close> is the value of \<open>rand()\<close>.\<close>

definition SelectNode :: "nat \<Rightarrow> System \<Rightarrow> error + System" where
  "SelectNode r s =
     (if SYSTEM_SIZE s = 0 then Inl DivisionByZero
      else Inr (s\<lparr>node := r mod SYSTEM_SIZE s\<rparr>))"

text \<open>\<open>node->Update()\<close>\<close>

definition node_Update :: "System \<Rightarrow> error + System" where
  "node_Update s =
     (case load s (node s) of
        Inl e \<Rightarrow> Inl e
      | Inr n \<Rightarrow> store s (node s) (Update n))"

definition TransientFault :: "nat \<Rightarrow> System \<Rightarrow> error + System" where
  "TransientFault r s =
     (case SelectNode r s of
        Inl e \<Rightarrow> Inl e
      | Inr s1 \<Rightarrow> node_Update s1)"

text \<open>The loop of \<open>LegalConfig\<close>, with its early return.\<close>

function LegalConfig_loop :: "System \<Rightarrow> nat \<Rightarrow> error + bool \<times> System" where
  "LegalConfig_loop s i =
     (if i < SYSTEM_SIZE s then
        (case load s 0 of
           Inl e \<Rightarrow> Inl e
         | Inr m0 \<Rightarrow>
            (case load s i of
               Inl e \<Rightarrow> Inl e
             | Inr mi \<Rightarrow>
                if \<not> Equal m0 mi then Inr (False, s)
                else LegalConfig_loop s (i + 1)))
      else Inr (True, s))"
  by pat_completeness auto
termination
  by (relation "measure (\<lambda>(s, i). SYSTEM_SIZE s - i)") auto

declare LegalConfig_loop.simps [simp del]

definition LegalConfig :: "System \<Rightarrow> error + bool \<times> System" where
  "LegalConfig s = LegalConfig_loop s 1"

text \<open>
  \<open>CheckUnequal\<close>. In the branch for two neighbours the two conditions together always
  read the left neighbour first and then the right one, whichever of them holds.
  The source has no \<open>return\<close> after its third \<open>else if\<close>; flowing off the end of the
  function is the error \<open>MissingReturn\<close>.
\<close>

definition CheckUnequal :: "System \<Rightarrow> error + bool \<times> System" where
  "CheckUnequal s =
     (case load s (node s) of
        Inl e \<Rightarrow> Inl e
      | Inr n \<Rightarrow>
         if left n \<noteq> None \<and> right n \<noteq> None then
           (case load_ptr s (left n) of
              Inl e \<Rightarrow> Inl e
            | Inr l \<Rightarrow>
               (case load_ptr s (right n) of
                  Inl e \<Rightarrow> Inl e
                | Inr r \<Rightarrow>
                   if primary n \<noteq> primary l \<and> primary n \<noteq> primary r then
                     (case node_Update s of Inl e \<Rightarrow> Inl e | Inr s1 \<Rightarrow> Inr (True, s1))
                   else if primary n = primary l \<and> primary n = primary r then Inr (True, s)
                   else Inr (False, s)))
         else if left n = None then
           (case load_ptr s (right n) of
              Inl e \<Rightarrow> Inl e
            | Inr r \<Rightarrow>
               if primary n \<noteq> primary r then
                 (case node_Update s of Inl e \<Rightarrow> Inl e | Inr s1 \<Rightarrow> Inr (True, s1))
               else if primary n = primary r then Inr (True, s)
               else Inr (False, s))
         else if right n = None then
           (case load_ptr s (left n) of
              Inl e \<Rightarrow> Inl e
            | Inr l \<Rightarrow>
               if primary n \<noteq> primary l then
                 (case node_Update s of Inl e \<Rightarrow> Inl e | Inr s1 \<Rightarrow> Inr (True, s1))
               else if primary n = primary l then Inr (True, s)
               else Inr (False, s))
         else Inl MissingReturn)"

text \<open>\<open>isLeader\<close>; \<open>||\<close> does not read the right neighbour when the left one decides.\<close>

definition isLeader :: "System \<Rightarrow> error + bool" where
  "isLeader s =
     (case load s (node s) of
        Inl e \<Rightarrow> Inl e
      | Inr n \<Rightarrow>
         if left n = None then
           (case load_ptr s (right n) of
              Inl e \<Rightarrow> Inl e
            | Inr r \<Rightarrow> if sint (secondary n) < sint (secondary r) then Inr False else Inr True)
         else if right n = None then
           (case load_ptr s (left n) of
              Inl e \<Rightarrow> Inl e
            | Inr l \<Rightarrow> if sint (secondary n) < sint (secondary l) then Inr False else Inr True)
         else
           (case load_ptr s (left n) of
              Inl e \<Rightarrow> Inl e
            | Inr l \<Rightarrow>
               if sint (secondary n) < sint (secondary l) then Inr False
               else
                 (case load_ptr s (right n) of
                    Inl e \<Rightarrow> Inl e
                  | Inr r \<Rightarrow>
                     if sint (secondary n) < sint (secondary r) then Inr False else Inr True)))"

text \<open>\<open>Max\<close>, called \<open>Max_sec\<close> here.\<close>

definition Max_sec :: "System \<Rightarrow> error + cint" where
  "Max_sec s =
     (case load s (node s) of
        Inl e \<Rightarrow> Inl e
      | Inr n \<Rightarrow>
         if left n = None then
           (case load_ptr s (right n) of Inl e \<Rightarrow> Inl e | Inr r \<Rightarrow> Inr (secondary r))
         else if right n = None then
           (case load_ptr s (left n) of Inl e \<Rightarrow> Inl e | Inr l \<Rightarrow> Inr (secondary l))
         else
           (case load_ptr s (right n) of
              Inl e \<Rightarrow> Inl e
            | Inr r \<Rightarrow>
               (case load_ptr s (left n) of
                  Inl e \<Rightarrow> Inl e
                | Inr l \<Rightarrow>
                   if sint (secondary l) < sint (secondary r) then Inr (secondary r)
                   else Inr (secondary l))))"

text \<open>\<open>node->secondary += d\<close>\<close>

definition node_add_secondary :: "cint \<Rightarrow> System \<Rightarrow> error + System" where
  "node_add_secondary d s =
     (case load s (node s) of
        Inl e \<Rightarrow> Inl e
      | Inr n \<Rightarrow>
         (case int_add (secondary n) d of
            Inl e \<Rightarrow> Inl e
          | Inr v \<Rightarrow> store s (node s) (n\<lparr>secondary := v\<rparr>)))"

definition CheckConditions :: "System \<Rightarrow> error + System" where
  "CheckConditions s =
     (case isLeader s of
        Inl e \<Rightarrow> Inl e
      | Inr b \<Rightarrow>
         if b then
           (case node_Update s of
              Inl e \<Rightarrow> Inl e
            | Inr s1 \<Rightarrow>
               (case Max_sec s1 of
                  Inl e \<Rightarrow> Inl e
                | Inr m \<Rightarrow>
                   (case int_add m M of
                      Inl e \<Rightarrow> Inl e
                    | Inr d \<Rightarrow> node_add_secondary d s1)))
         else node_add_secondary 1 s)"

text \<open>
  Lines 153 to 155, the rule applied to the selected node: classify it with
  \<open>CheckUnequal\<close> and arbitrate with \<open>CheckConditions\<close> when the classification
  returns false.
\<close>

definition apply_rule :: "System \<Rightarrow> error + System" where
  "apply_rule s =
     (case CheckUnequal s of
        Inl e \<Rightarrow> Inl e
      | Inr (u, s2) \<Rightarrow> if \<not> u then CheckConditions s2 else Inr s2)"

text \<open>The body of the loop of \<open>Stabilize\<close>: select a node, then apply the rule to it.\<close>

definition Stabilize_body :: "nat \<Rightarrow> System \<Rightarrow> error + System" where
  "Stabilize_body r s =
     (case SelectNode r s of
        Inl e \<Rightarrow> Inl e
      | Inr s1 \<Rightarrow> apply_rule s1)"

text \<open>
  \<open>Stabilize\<close>. The loop has no bound, so the model is a partial function: \<open>None\<close> is a
  run that never leaves the loop. \<open>rnd k\<close> is the value of the \<open>k\<close>-th call of \<open>rand()\<close>;
  the result carries the number of the next call, that is, how many times the body ran.
\<close>

partial_function (option) Stabilize :: "(nat \<Rightarrow> nat) \<Rightarrow> nat \<Rightarrow> System \<Rightarrow> (error + System \<times> nat) option" where
  "Stabilize rnd k s =
     (case LegalConfig s of
        Inl e \<Rightarrow> Some (Inl e)
      | Inr (legal, s0) \<Rightarrow>
         if legal then Some (Inr (s0, k))
         else
           (case Stabilize_body (rnd k) s0 of
              Inl e \<Rightarrow> Some (Inl e)
            | Inr s1 \<Rightarrow> Stabilize rnd (k + 1) s1))"

text \<open>
  A sequence of fault injections: one call of \<open>TransientFault\<close> for each value of
  \<open>rand()\<close> in the list. The loop of \<open>main\<close> at lines 309 to 312 makes these calls;
  the printing it does between them is not part of the model.
\<close>

fun inject_faults :: "nat list \<Rightarrow> System \<Rightarrow> error + System" where
  "inject_faults [] s = Inr s"
| "inject_faults (r # rs) s =
     (case TransientFault r s of
        Inl e \<Rightarrow> Inl e
      | Inr s1 \<Rightarrow> inject_faults rs s1)"

subsection \<open>Runs\<close>

text \<open>
  A run of a system is a sequence of calls of the methods that can change it, made on the
  object the constructor returned. \<open>exec\<close> gives the object after one call: \<open>None\<close> when
  the call never returns, an error when it fails. The results the methods return are
  dropped here, only the object is kept.
\<close>

datatype call =
    Call_SelectNode nat
  | Call_TransientFault nat
  | Call_LegalConfig
  | Call_CheckUnequal
  | Call_CheckConditions
  | Call_Stabilize "nat \<Rightarrow> nat"

fun exec :: "call \<Rightarrow> System \<Rightarrow> (error + System) option" where
  "exec (Call_SelectNode r) s = Some (SelectNode r s)"
| "exec (Call_TransientFault r) s = Some (TransientFault r s)"
| "exec Call_LegalConfig s =
     Some (case LegalConfig s of Inl e \<Rightarrow> Inl e | Inr (legal, s1) \<Rightarrow> Inr s1)"
| "exec Call_CheckUnequal s =
     Some (case CheckUnequal s of Inl e \<Rightarrow> Inl e | Inr (u, s1) \<Rightarrow> Inr s1)"
| "exec Call_CheckConditions s = Some (CheckConditions s)"
| "exec (Call_Stabilize rnd) s =
     (case Stabilize rnd 0 s of
        None \<Rightarrow> None
      | Some (Inl e) \<Rightarrow> Some (Inl e)
      | Some (Inr (s1, k)) \<Rightarrow> Some (Inr s1))"

fun run :: "call list \<Rightarrow> System \<Rightarrow> (error + System) option" where
  "run [] s = Some (Inr s)"
| "run (c # cs) s =
     (case exec c s of
        None \<Rightarrow> None
      | Some (Inl e) \<Rightarrow> Some (Inl e)
      | Some (Inr s1) \<Rightarrow> run cs s1)"

text \<open>
  Two properties of the secondary values: all of them are at least the initial 5, and
  node by node those of the second system are at least those of the first.
\<close>

definition secondary_from_5 :: "System \<Rightarrow> bool" where
  "secondary_from_5 s = list_all (\<lambda>n. 5 \<le> sint (secondary n)) (member_arr s)"

definition secondary_le :: "System \<Rightarrow> System \<Rightarrow> bool" where
  "secondary_le s s' =
     list_all2 (\<lambda>a b. sint (secondary a) \<le> sint (secondary b)) (member_arr s) (member_arr s')"

text \<open>What a call keeps: the lower bound 5, and every secondary value or more.\<close>

definition keeps :: "System \<Rightarrow> System \<Rightarrow> bool" where
  "keeps s s' = ((secondary_from_5 s \<longrightarrow> secondary_from_5 s') \<and> secondary_le s s')"

text \<open>A source of random numbers for which every call of \<open>rand()\<close> returns \<open>r\<close>.\<close>

definition rand_const :: "nat \<Rightarrow> nat \<Rightarrow> nat" where
  "rand_const r k = r"

text \<open>
  The links of a line of at least two nodes, as the constructor sets them and no method
  changes them: every node but the first points left to its predecessor, every node but
  the last points right to its successor, and \<open>node\<close> points into the array.
\<close>

definition line_links :: "System \<Rightarrow> bool" where
  "line_links s =
     (2 \<le> SYSTEM_SIZE s \<and> length (member_arr s) = SYSTEM_SIZE s \<and> node s < SYSTEM_SIZE s \<and>
      (\<forall>j < SYSTEM_SIZE s.
         left (member_arr s ! j) = (if j = 0 then None else Some (j - 1)) \<and>
         right (member_arr s ! j) = (if j = SYSTEM_SIZE s - 1 then None else Some (j + 1))))"

subsection \<open>The systems of the examples\<close>

text \<open>
  The lines of three and of four nodes as the constructor links them, with the primary
  values given; \<open>line4\<close> also takes the secondary values of its two inner nodes. All
  other secondary values are the initial 5.
\<close>

abbreviation line3 :: "cint \<Rightarrow> cint \<Rightarrow> cint \<Rightarrow> nat \<Rightarrow> System" where
  "line3 p0 p1 p2 k \<equiv>
     \<lparr>SYSTEM_SIZE = 3,
      member_arr =
        [\<lparr>primary = p0, secondary = 5, left = None, right = Some 1\<rparr>,
         \<lparr>primary = p1, secondary = 5, left = Some 0, right = Some 2\<rparr>,
         \<lparr>primary = p2, secondary = 5, left = Some 1, right = None\<rparr>],
      node = k\<rparr>"

abbreviation line4 ::
  "cint \<Rightarrow> cint \<Rightarrow> cint \<Rightarrow> cint \<Rightarrow> cint \<Rightarrow> cint \<Rightarrow> nat \<Rightarrow> System" where
  "line4 p0 p1 p2 p3 s1 s2 k \<equiv>
     \<lparr>SYSTEM_SIZE = 4,
      member_arr =
        [\<lparr>primary = p0, secondary = 5, left = None, right = Some 1\<rparr>,
         \<lparr>primary = p1, secondary = s1, left = Some 0, right = Some 2\<rparr>,
         \<lparr>primary = p2, secondary = s2, left = Some 1, right = Some 3\<rparr>,
         \<lparr>primary = p3, secondary = 5, left = Some 2, right = None\<rparr>],
      node = k\<rparr>"

section \<open>Auxiliary facts\<close>

lemma int_add_Inr: "int_add a b = Inr c \<Longrightarrow> c = a + b \<and> sint c = sint a + sint b"
  apply (auto simp: int_add_def split: if_splits)
  apply (simp add: sint_word_ariths)
  apply (rule signed_take_bit_int_eq_self)
   apply simp_all
  done

lemma int_add_sint: "int_add a b = Inr c \<Longrightarrow> sint c = sint a + sint b"
  by (simp add: int_add_Inr)

lemma map_update_same:
  "i < length xs \<Longrightarrow> f y = f (xs ! i) \<Longrightarrow> map f (xs[i := y]) = map f xs"
  by (metis list_update_id map_update)

subsection \<open>The constructor\<close>

lemma ctor_loop_total:
  "length mem = N \<Longrightarrow>
   \<exists>mem'. ctor_loop N i mem = Inr mem' \<and> length mem' = N \<and>
     map primary mem' = map primary mem \<and> map secondary mem' = map secondary mem"
proof (induction N i mem rule: ctor_loop.induct)
  case (1 N i mem)
  show ?case
  proof (cases "i < N")
    case False
    then show ?thesis using "1.prems" by (simp add: ctor_loop.simps)
  next
    case True
    note lt = True
    have len: "\<not> length mem \<le> i" using lt "1.prems" by simp
    show ?thesis
    proof (cases "i = 0")
      case True
      from "1.IH"(1) [OF lt len True] "1.prems"
      obtain mem' where "ctor_loop N (i + 1) (mem[i := (mem ! i)\<lparr>right := Some (i + 1)\<rparr>]) = Inr mem'"
        "length mem' = N"
        "map primary mem' = map primary (mem[i := (mem ! i)\<lparr>right := Some (i + 1)\<rparr>])"
        "map secondary mem' = map secondary (mem[i := (mem ! i)\<lparr>right := Some (i + 1)\<rparr>])"
        by auto
      then show ?thesis using lt len True
        by (subst ctor_loop.simps) (simp add: map_update_same)
    next
      case False
      note nz = False
      show ?thesis
      proof (cases "i = N - 1")
        case True
        from "1.IH"(2) [OF lt len nz True] "1.prems"
        obtain mem' where "ctor_loop N (i + 1) (mem[i := (mem ! i)\<lparr>left := Some (i - 1)\<rparr>]) = Inr mem'"
          "length mem' = N"
          "map primary mem' = map primary (mem[i := (mem ! i)\<lparr>left := Some (i - 1)\<rparr>])"
          "map secondary mem' = map secondary (mem[i := (mem ! i)\<lparr>left := Some (i - 1)\<rparr>])"
          by auto
        then show ?thesis using lt len nz True
          by (subst ctor_loop.simps) (simp add: map_update_same)
      next
        case False
        from "1.IH"(3) [OF lt len nz False] "1.prems"
        obtain mem' where
          "ctor_loop N (i + 1) (mem[i := (mem ! i)\<lparr>left := Some (i - 1), right := Some (i + 1)\<rparr>]) = Inr mem'"
          "length mem' = N"
          "map primary mem' = map primary (mem[i := (mem ! i)\<lparr>left := Some (i - 1), right := Some (i + 1)\<rparr>])"
          "map secondary mem' = map secondary (mem[i := (mem ! i)\<lparr>left := Some (i - 1), right := Some (i + 1)\<rparr>])"
          by auto
        then show ?thesis using lt len nz False
          by (subst ctor_loop.simps) (simp add: map_update_same)
      qed
    qed
  qed
qed

lemma System_ctor_on_ok:
  assumes "0 \<le> sint n" and "room (nat (sint n))"
  shows "\<exists>mem. System_ctor_on room n =
             Inr \<lparr>SYSTEM_SIZE = nat (sint n), member_arr = mem, node = 0\<rparr> \<and>
           length mem = nat (sint n) \<and>
           map primary mem = replicate (nat (sint n)) 0 \<and>
           map secondary mem = replicate (nat (sint n)) 5"
proof -
  from ctor_loop_total [of "replicate (nat (sint n)) Node_ctor" "nat (sint n)" 0]
  obtain mem' where "ctor_loop (nat (sint n)) 0 (replicate (nat (sint n)) Node_ctor) = Inr mem'"
    "length mem' = nat (sint n)"
    "map primary mem' = map primary (replicate (nat (sint n)) Node_ctor)"
    "map secondary mem' = map secondary (replicate (nat (sint n)) Node_ctor)"
    by auto
  then show ?thesis using assms
    by (simp add: System_ctor_on_def Node_ctor_def)
qed

lemma System_ctor_on_Inr:
  "System_ctor_on room n = Inr s \<Longrightarrow> 0 \<le> sint n \<and> room (nat (sint n))"
  by (auto simp: System_ctor_on_def split: if_splits)

lemma System_ctor_ok:
  assumes "0 \<le> sint n"
  shows "\<exists>mem. System_ctor n = Inr \<lparr>SYSTEM_SIZE = nat (sint n), member_arr = mem, node = 0\<rparr> \<and>
           length mem = nat (sint n) \<and>
           map primary mem = replicate (nat (sint n)) 0 \<and>
           map secondary mem = replicate (nat (sint n)) 5"
  unfolding System_ctor_def using assms by (intro System_ctor_on_ok) simp_all

lemma ctor_one:
  "System_ctor 1 = Inr \<lparr>SYSTEM_SIZE = 1,
      member_arr = [\<lparr>primary = 0, secondary = 5, left = None, right = Some 1\<rparr>], node = 0\<rparr>"
  by (simp add: System_ctor_def System_ctor_on_def ctor_loop.simps Node_ctor_def)

subsection \<open>The convergence check\<close>

lemma LegalConfig_loop_eq:
  assumes "length (member_arr s) = SYSTEM_SIZE s"
  shows "LegalConfig_loop s i =
     Inr ((\<forall>j. i \<le> j \<and> j < SYSTEM_SIZE s \<longrightarrow>
              primary (member_arr s ! j) = primary (member_arr s ! 0)), s)"
  using assms
proof (induction s i rule: LegalConfig_loop.induct)
  case (1 s i)
  show ?case
  proof (cases "i < SYSTEM_SIZE s")
    case False
    then show ?thesis by (subst LegalConfig_loop.simps) auto
  next
    case True
    then have l0: "load s 0 = Inr (member_arr s ! 0)" and li: "load s i = Inr (member_arr s ! i)"
      using "1.prems" by (simp_all add: load_def)
    show ?thesis
    proof (cases "primary (member_arr s ! 0) = primary (member_arr s ! i)")
      case False
      then have "\<not> (\<forall>j. i \<le> j \<and> j < SYSTEM_SIZE s \<longrightarrow>
              primary (member_arr s ! j) = primary (member_arr s ! 0))"
        using True by (metis order_refl)
      then show ?thesis using True l0 li False
        by (subst LegalConfig_loop.simps) (simp add: Equal_def)
    next
      case eq: True
      have "Equal (member_arr s ! 0) (member_arr s ! i)" using eq by (simp add: Equal_def)
      then have ih: "LegalConfig_loop s (i + 1) =
         Inr ((\<forall>j. i + 1 \<le> j \<and> j < SYSTEM_SIZE s \<longrightarrow>
              primary (member_arr s ! j) = primary (member_arr s ! 0)), s)"
        using "1.IH" [OF True l0 li] "1.prems" by simp
      have "(\<forall>j. i + 1 \<le> j \<and> j < SYSTEM_SIZE s \<longrightarrow>
              primary (member_arr s ! j) = primary (member_arr s ! 0)) =
            (\<forall>j. i \<le> j \<and> j < SYSTEM_SIZE s \<longrightarrow>
              primary (member_arr s ! j) = primary (member_arr s ! 0))"
      proof (intro iffI allI impI)
        fix j
        assume a: "\<forall>j. i + 1 \<le> j \<and> j < SYSTEM_SIZE s \<longrightarrow>
              primary (member_arr s ! j) = primary (member_arr s ! 0)"
          and b: "i \<le> j \<and> j < SYSTEM_SIZE s"
        show "primary (member_arr s ! j) = primary (member_arr s ! 0)"
        proof (cases "j = i")
          case True
          then show ?thesis using eq by simp
        next
          case False
          then have "i + 1 \<le> j" using b by simp
          then show ?thesis using a b by blast
        qed
      next
        fix j
        assume a: "\<forall>j. i \<le> j \<and> j < SYSTEM_SIZE s \<longrightarrow>
              primary (member_arr s ! j) = primary (member_arr s ! 0)"
          and b: "i + 1 \<le> j \<and> j < SYSTEM_SIZE s"
        then have "i \<le> j \<and> j < SYSTEM_SIZE s" by simp
        then show "primary (member_arr s ! j) = primary (member_arr s ! 0)" using a by blast
      qed
      then show ?thesis using True l0 li eq ih
        by (subst LegalConfig_loop.simps) (simp add: Equal_def)
    qed
  qed
qed

lemma LegalConfig_eq:
  assumes "length (member_arr s) = SYSTEM_SIZE s"
  shows "LegalConfig s =
     Inr ((\<forall>n \<in> set (member_arr s). primary n = primary (member_arr s ! 0)), s)"
proof -
  have "(\<forall>j. 1 \<le> j \<and> j < SYSTEM_SIZE s \<longrightarrow>
              primary (member_arr s ! j) = primary (member_arr s ! 0)) =
        (\<forall>j < length (member_arr s). primary (member_arr s ! j) = primary (member_arr s ! 0))"
    using assms by (metis One_nat_def Suc_leI neq0_conv)
  also have "\<dots> = (\<forall>n \<in> set (member_arr s). primary n = primary (member_arr s ! 0))"
    by (simp add: all_set_conv_all_nth)
  finally show ?thesis
    using LegalConfig_loop_eq [OF assms, of 1] by (simp add: LegalConfig_def)
qed

lemma LegalConfig_small: "SYSTEM_SIZE s \<le> 1 \<Longrightarrow> LegalConfig s = Inr (True, s)"
  by (simp add: LegalConfig_def LegalConfig_loop.simps)

subsection \<open>Fault injection\<close>

lemma TransientFault_eq:
  assumes "length (member_arr s) = SYSTEM_SIZE s" and "0 < SYSTEM_SIZE s"
  shows "TransientFault r s =
    Inr (s\<lparr>node := r mod SYSTEM_SIZE s,
           member_arr := (member_arr s)[r mod SYSTEM_SIZE s :=
              Update (member_arr s ! (r mod SYSTEM_SIZE s))]\<rparr>)"
  using assms
  by (simp add: TransientFault_def SelectNode_def node_Update_def load_def store_def)

subsection \<open>The rule\<close>

lemma load_Inr: "load s p = Inr n \<Longrightarrow> p < length (member_arr s) \<and> n = member_arr s ! p"
  by (auto simp: load_def split: if_splits)

lemma load_ptr_Some [simp]: "load_ptr s (Some i) = load s i"
  by (simp add: load_ptr_def)

lemma load_ptr_None [simp]: "load_ptr s None = Inl NullPointer"
  by (simp add: load_ptr_def)

lemma node_Update_eq:
  "load s (node s) = Inr n \<Longrightarrow>
   node_Update s = Inr (s\<lparr>member_arr := (member_arr s)[node s := Update n]\<rparr>)"
  by (auto simp: node_Update_def store_def dest: load_Inr)

lemma CheckUnequal_mixed:
  assumes "load s (node s) = Inr n" "left n = Some li" "right n = Some ri"
    "load s li = Inr l" "load s ri = Inr r"
    "(primary n = primary l) \<noteq> (primary n = primary r)"
  shows "CheckUnequal s = Inr (False, s)"
  using assms by (auto simp: CheckUnequal_def)

lemma CheckUnequal_endpoint:
  assumes "load s (node s) = Inr n"
    and "left n = None \<and> right n = Some i \<or> left n = Some i \<and> right n = None"
    and "load s i = Inr m"
  shows "CheckUnequal s =
     Inr (True, if primary n = primary m then s
                else s\<lparr>member_arr := (member_arr s)[node s := Update n]\<rparr>)"
  using assms by (auto simp: CheckUnequal_def node_Update_eq)

lemma isLeader_two:
  assumes "load s (node s) = Inr n" "left n = Some li" "right n = Some ri"
    "load s li = Inr l" "load s ri = Inr r"
  shows "isLeader s = Inr (sint (secondary l) \<le> sint (secondary n) \<and>
                           sint (secondary r) \<le> sint (secondary n))"
  using assms by (auto simp: isLeader_def)

lemma sint32_range: "- (2 ^ 31) \<le> sint (x :: cint) \<and> sint x \<le> 2 ^ 31 - 1"
  using sint_ge [of x] sint_lt [of x] by simp

lemma int_add_ok:
  "- (2 ^ 31) \<le> sint a + sint b \<Longrightarrow> sint a + sint b \<le> 2 ^ 31 - 1 \<Longrightarrow> int_add a b = Inr (a + b)"
  by (simp add: int_add_def)

lemma follower_step:
  assumes n: "load s (node s) = Inr n" and "left n = Some li" "right n = Some ri"
    and "load s li = Inr l" "load s ri = Inr r"
    and mixed: "(primary n = primary l) \<noteq> (primary n = primary r)"
    and nl: "sint (secondary n) < sint (secondary l) \<or> sint (secondary n) < sint (secondary r)"
  shows "CheckUnequal s = Inr (False, s) \<and> isLeader s = Inr False \<and>
     sint (secondary n + 1) = sint (secondary n) + 1 \<and>
     apply_rule s = Inr (s\<lparr>member_arr := (member_arr s)[node s := n\<lparr>secondary := secondary n + 1\<rparr>]\<rparr>)"
proof -
  have cu: "CheckUnequal s = Inr (False, s)"
    using assms by (intro CheckUnequal_mixed)
  have il: "isLeader s = Inr False"
    using isLeader_two [OF assms(1-5)] nl by auto
  have "sint (secondary n) + 1 \<le> 2 ^ 31 - 1"
    using nl sint32_range [of "secondary l"] sint32_range [of "secondary r"] by auto
  moreover have "- (2 ^ 31) \<le> sint (secondary n) + 1"
    using sint32_range [of "secondary n"] by simp
  ultimately have ia: "int_add (secondary n) 1 = Inr (secondary n + 1)"
    by (intro int_add_ok) simp_all
  have st: "store s (node s) (n\<lparr>secondary := secondary n + 1\<rparr>) =
      Inr (s\<lparr>member_arr := (member_arr s)[node s := n\<lparr>secondary := secondary n + 1\<rparr>]\<rparr>)"
    using load_Inr [OF n] by (simp add: store_def)
  have "apply_rule s = Inr (s\<lparr>member_arr := (member_arr s)[node s := n\<lparr>secondary := secondary n + 1\<rparr>]\<rparr>)"
    by (simp add: apply_rule_def cu CheckConditions_def il node_add_secondary_def n ia st)
  then show ?thesis using cu il int_add_Inr [OF ia] by simp
qed

lemma Max_sec_two:
  assumes "load s (node s) = Inr n" "left n = Some li" "right n = Some ri"
    "load s li = Inr l" "load s ri = Inr r"
  shows "Max_sec s = Inr (if sint (secondary l) < sint (secondary r) then secondary r else secondary l)"
  using assms by (auto simp: Max_sec_def)

lemma load_after_update:
  assumes "load s p = Inr x" and "q < length (member_arr s)"
  shows "load (s\<lparr>member_arr := (member_arr s)[q := y]\<rparr>) p = Inr (if p = q then y else x)"
  using assms by (auto simp: load_def split: if_splits)

lemma Update_fields [simp]:
  "secondary (Update n) = secondary n" "left (Update n) = left n" "right (Update n) = right n"
  "primary (Update n) = (if primary n = 0 then 1 else 0)"
  by (simp_all add: Update_def)

lemma leader_step:
  assumes n: "load s (node s) = Inr n" and ln: "left n = Some li" and rn: "right n = Some ri"
    and l: "load s li = Inr l" and r: "load s ri = Inr r"
    and mixed: "(primary n = primary l) \<noteq> (primary n = primary r)"
    and ld: "sint (secondary l) \<le> sint (secondary n)" "sint (secondary r) \<le> sint (secondary n)"
    and lo: "- (2 ^ 31) \<le> sint (secondary n) + (max (sint (secondary l)) (sint (secondary r)) + 20)"
    and hi: "sint (secondary n) + (max (sint (secondary l)) (sint (secondary r)) + 20) \<le> 2 ^ 31 - 1"
  shows "\<exists>v. sint v = sint (secondary n) + (max (sint (secondary l)) (sint (secondary r)) + 20) \<and>
     CheckUnequal s = Inr (False, s) \<and> isLeader s = Inr True \<and>
     apply_rule s = Inr (s\<lparr>member_arr := (member_arr s)[node s :=
         n\<lparr>primary := (if primary n = 0 then 1 else 0), secondary := v\<rparr>]\<rparr>)"
proof -
  let ?s1 = "s\<lparr>member_arr := (member_arr s)[node s := Update n]\<rparr>"
  let ?m = "if sint (secondary l) < sint (secondary r) then secondary r else secondary l"
  have nlen: "node s < length (member_arr s)" using load_Inr [OF n] by simp
  have cu: "CheckUnequal s = Inr (False, s)"
    using n ln rn l r mixed by (intro CheckUnequal_mixed)
  have il: "isLeader s = Inr True"
    using isLeader_two [OF n ln rn l r] ld by simp
  have up: "node_Update s = Inr ?s1" by (rule node_Update_eq [OF n])
  have n1: "load ?s1 (node ?s1) = Inr (Update n)"
    using load_after_update [OF n nlen, of "Update n"] by simp
  have l1: "load ?s1 li = Inr (if li = node s then Update n else l)"
    using load_after_update [OF l nlen, of "Update n"] by simp
  have r1: "load ?s1 ri = Inr (if ri = node s then Update n else r)"
    using load_after_update [OF r nlen, of "Update n"] by simp
  have sl: "secondary (if li = node s then Update n else l) = secondary l"
    using n l by (auto dest!: load_Inr)
  have sr: "secondary (if ri = node s then Update n else r) = secondary r"
    using n r by (auto dest!: load_Inr)
  have mx: "Max_sec ?s1 = Inr ?m"
    using Max_sec_two [OF n1 _ _ l1 r1] ln rn sl sr by simp
  define mv where "mv = sint ?m"
  define nv where "nv = sint (secondary n)"
  have sm: "mv = max (sint (secondary l)) (sint (secondary r))" by (auto simp: mv_def)
  have mle: "mv \<le> nv" using ld by (auto simp: mv_def nv_def)
  have rg: "- 2147483648 \<le> mv" "mv \<le> 2147483647" "- 2147483648 \<le> nv" "nv \<le> 2147483647"
    using sint32_range [of ?m] sint32_range [of "secondary n"] by (simp_all add: mv_def nv_def)
  have lo': "- 2147483648 \<le> nv + (mv + 20)" and hi': "nv + (mv + 20) \<le> 2147483647"
    using lo hi by (simp_all add: sm [symmetric] nv_def)
  have "- 2147483648 \<le> mv + 20" "mv + 20 \<le> 2147483647"
    using hi' mle rg by linarith+
  then have a1: "int_add ?m M = Inr (?m + M)"
    by (intro int_add_ok) (simp_all add: M_def mv_def)
  have sd: "sint (?m + M) = mv + 20" using int_add_Inr [OF a1] by (simp add: M_def mv_def)
  have a2: "int_add (secondary n) (?m + M) = Inr (secondary n + (?m + M))"
    using lo' hi' by (intro int_add_ok) (simp_all add: sd nv_def [symmetric])
  have sv: "sint (secondary n + (?m + M)) =
      sint (secondary n) + (max (sint (secondary l)) (sint (secondary r)) + 20)"
    using int_add_Inr [OF a2] sd sm by (simp add: nv_def)
  have st: "store ?s1 (node s) ((Update n)\<lparr>secondary := secondary n + (?m + M)\<rparr>) =
      Inr (s\<lparr>member_arr := (member_arr s)[node s :=
         n\<lparr>primary := (if primary n = 0 then 1 else 0), secondary := secondary n + (?m + M)\<rparr>]\<rparr>)"
    using nlen by (simp add: store_def Update_def)
  have "node_add_secondary (?m + M) ?s1 = Inr (s\<lparr>member_arr := (member_arr s)[node s :=
         n\<lparr>primary := (if primary n = 0 then 1 else 0), secondary := secondary n + (?m + M)\<rparr>]\<rparr>)"
    unfolding node_add_secondary_def using n1 a2 st by simp
  then have "apply_rule s = Inr (s\<lparr>member_arr := (member_arr s)[node s :=
         n\<lparr>primary := (if primary n = 0 then 1 else 0), secondary := secondary n + (?m + M)\<rparr>]\<rparr>)"
    by (simp add: apply_rule_def cu CheckConditions_def il up mx a1)
  then show ?thesis using sv cu il by blast
qed

subsection \<open>Secondary values along a run\<close>

lemma secondary_le_refl: "secondary_le s s"
  by (simp add: secondary_le_def list_all2_refl)

lemma secondary_le_trans:
  assumes "secondary_le a b" and "secondary_le b c"
  shows "secondary_le a c"
proof -
  have "list_all2 (\<lambda>x z. sint (secondary x) \<le> sint (secondary z)) (member_arr a) (member_arr c)"
  proof (rule list_all2_trans)
    show "list_all2 (\<lambda>x y. sint (secondary x) \<le> sint (secondary y)) (member_arr a) (member_arr b)"
      using assms(1) by (simp add: secondary_le_def)
    show "list_all2 (\<lambda>x y. sint (secondary x) \<le> sint (secondary y)) (member_arr b) (member_arr c)"
      using assms(2) by (simp add: secondary_le_def)
  qed simp
  then show ?thesis by (simp add: secondary_le_def)
qed

lemma secondary_le_store:
  assumes "p < length (member_arr s)" and "sint (secondary (member_arr s ! p)) \<le> sint (secondary n)"
  shows "secondary_le s (s\<lparr>member_arr := (member_arr s)[p := n]\<rparr>)"
  using assms by (auto simp: secondary_le_def list_all2_conv_all_nth nth_list_update)

lemma secondary_from_5_store:
  assumes "secondary_from_5 s" and "5 \<le> sint (secondary n)"
  shows "secondary_from_5 (s\<lparr>member_arr := (member_arr s)[p := n]\<rparr>)"
proof -
  have "set ((member_arr s)[p := n]) \<subseteq> insert n (set (member_arr s))"
    by (rule set_update_subset_insert)
  then show ?thesis using assms
    by (auto simp: secondary_from_5_def list_all_iff)
qed

lemma secondary_from_5_nth:
  "secondary_from_5 s \<Longrightarrow> p < length (member_arr s) \<Longrightarrow> 5 \<le> sint (secondary (member_arr s ! p))"
  by (simp add: secondary_from_5_def list_all_length)

lemma keeps_refl: "keeps s s"
  by (simp add: keeps_def secondary_le_refl)

lemma keeps_trans: "keeps a b \<Longrightarrow> keeps b c \<Longrightarrow> keeps a c"
  by (auto simp: keeps_def intro: secondary_le_trans)

lemma SelectNode_keeps: "SelectNode r s = Inr s' \<Longrightarrow> keeps s s'"
  by (auto simp: SelectNode_def keeps_def secondary_le_def secondary_from_5_def list_all2_refl
      split: if_splits)

lemma node_Update_keeps: "node_Update s = Inr s' \<Longrightarrow> keeps s s'"
  unfolding node_Update_def keeps_def
  by (auto simp: store_def split: sum.splits if_splits dest!: load_Inr
      intro!: secondary_le_store secondary_from_5_store dest: secondary_from_5_nth)

lemma TransientFault_keeps: "TransientFault r s = Inr s' \<Longrightarrow> keeps s s'"
  unfolding TransientFault_def
  by (auto split: sum.splits intro: keeps_trans SelectNode_keeps node_Update_keeps)

lemma CheckUnequal_keeps: "CheckUnequal s = Inr (u, s') \<Longrightarrow> keeps s s'"
  unfolding CheckUnequal_def
  by (auto split: sum.splits if_splits intro: keeps_refl node_Update_keeps)

lemma node_add_secondary_keeps:
  assumes "node_add_secondary d s = Inr s'" and "0 \<le> sint d"
  shows "keeps s s'"
proof -
  from assms(1) obtain n v where n: "load s (node s) = Inr n"
    and v: "int_add (secondary n) d = Inr v"
    and s': "s' = s\<lparr>member_arr := (member_arr s)[node s := n\<lparr>secondary := v\<rparr>]\<rparr>"
    by (auto simp: node_add_secondary_def store_def split: sum.splits if_splits)
  have le: "sint (secondary n) \<le> sint v" using int_add_sint [OF v] assms(2) by simp
  have p: "node s < length (member_arr s)" "n = member_arr s ! node s"
    using load_Inr [OF n] by simp_all
  have "secondary_le s s'" unfolding s' using p le by (intro secondary_le_store) simp_all
  moreover have "secondary_from_5 s \<Longrightarrow> secondary_from_5 s'"
    unfolding s' using secondary_from_5_nth [of s "node s"] p le
    by (intro secondary_from_5_store) simp_all
  ultimately show ?thesis by (simp add: keeps_def)
qed

lemma Max_sec_member:
  "Max_sec s = Inr m \<Longrightarrow> \<exists>p < length (member_arr s). m = secondary (member_arr s ! p)"
  unfolding Max_sec_def
  by (auto simp: load_ptr_def split: sum.splits if_splits option.splits dest!: load_Inr)

lemma CheckConditions_keeps:
  assumes "CheckConditions s = Inr s'" and "secondary_from_5 s"
  shows "keeps s s'"
proof -
  from assms(1) obtain b where b: "isLeader s = Inr b"
    by (auto simp: CheckConditions_def split: sum.splits)
  show ?thesis
  proof (cases b)
    case False
    then have "node_add_secondary 1 s = Inr s'"
      using assms(1) b by (simp add: CheckConditions_def)
    then show ?thesis by (rule node_add_secondary_keeps) simp
  next
    case True
    then obtain s1 m d where u: "node_Update s = Inr s1" and m: "Max_sec s1 = Inr m"
      and d: "int_add m M = Inr d" and a: "node_add_secondary d s1 = Inr s'"
      using assms(1) b by (auto simp: CheckConditions_def split: sum.splits)
    have k1: "keeps s s1" by (rule node_Update_keeps [OF u])
    then have "secondary_from_5 s1" using assms(2) by (simp add: keeps_def)
    then have "5 \<le> sint m" using Max_sec_member [OF m] secondary_from_5_nth by blast
    then have "0 \<le> sint d" using int_add_sint [OF d] by (simp add: M_def)
    then have "keeps s1 s'" by (rule node_add_secondary_keeps [OF a])
    then show ?thesis using k1 by (rule keeps_trans [rotated])
  qed
qed

lemma LegalConfig_loop_state: "LegalConfig_loop s i = Inr (b, s') \<Longrightarrow> s' = s"
proof (induction s i rule: LegalConfig_loop.induct)
  case (1 s i)
  show ?case
  proof (cases "i < SYSTEM_SIZE s")
    case False
    then show ?thesis using "1.prems" by (subst (asm) LegalConfig_loop.simps) simp
  next
    case True
    from "1.prems" True obtain m0 mi where l0: "load s 0 = Inr m0" and li: "load s i = Inr mi"
      by (subst (asm) LegalConfig_loop.simps) (auto split: sum.splits)
    show ?thesis
    proof (cases "Equal m0 mi")
      case False
      then show ?thesis using "1.prems" True l0 li
        by (subst (asm) LegalConfig_loop.simps) simp
    next
      case eq: True
      then have "LegalConfig_loop s (i + 1) = Inr (b, s')"
        using "1.prems" True l0 li by (subst (asm) LegalConfig_loop.simps) simp
      then show ?thesis using "1.IH" [OF True l0 li] eq by simp
    qed
  qed
qed

lemma LegalConfig_state: "LegalConfig s = Inr (b, s') \<Longrightarrow> s' = s"
  unfolding LegalConfig_def by (rule LegalConfig_loop_state)

lemma apply_rule_keeps:
  assumes "apply_rule s = Inr s'" and "secondary_from_5 s"
  shows "keeps s s'"
proof -
  from assms(1) obtain u s1 where c: "CheckUnequal s = Inr (u, s1)"
    and r: "if \<not> u then CheckConditions s1 = Inr s' else s' = s1"
    by (auto simp: apply_rule_def split: sum.splits if_splits)
  have k: "keeps s s1" by (rule CheckUnequal_keeps [OF c])
  then have "secondary_from_5 s1" using assms(2) by (simp add: keeps_def)
  then have "keeps s1 s'" using r by (auto intro: CheckConditions_keeps keeps_refl split: if_splits)
  with k show ?thesis by (rule keeps_trans)
qed

lemma Stabilize_body_keeps:
  assumes "Stabilize_body r s = Inr s'" and "secondary_from_5 s"
  shows "keeps s s'"
proof -
  from assms(1) obtain s1 where c: "SelectNode r s = Inr s1" and a: "apply_rule s1 = Inr s'"
    by (auto simp: Stabilize_body_def split: sum.splits)
  have k: "keeps s s1" by (rule SelectNode_keeps [OF c])
  then have "secondary_from_5 s1" using assms(2) by (simp add: keeps_def)
  then have "keeps s1 s'" by (rule apply_rule_keeps [OF a])
  with k show ?thesis by (rule keeps_trans)
qed

lemma Stabilize_keeps_aux:
  "Stabilize rnd k s = Some res \<Longrightarrow>
   \<forall>s' k'. res = Inr (s', k') \<longrightarrow> secondary_from_5 s \<longrightarrow> keeps s s'"
proof (induction rule: Stabilize.raw_induct [rotated 1, consumes 1])
  case (1 Stab rnd k s res)
  show ?case
  proof (intro allI impI)
    fix s' k'
    assume res: "res = Inr (s', k')" and inv: "secondary_from_5 s"
    from "1.hyps" res obtain legal s0 where lc: "LegalConfig s = Inr (legal, s0)"
      by (auto split: sum.splits)
    have s0: "s0 = s" by (rule LegalConfig_state [OF lc])
    show "keeps s s'"
    proof (cases legal)
      case True
      then show ?thesis using "1.hyps" res lc s0 by (simp add: keeps_refl)
    next
      case False
      then obtain s1 where b: "Stabilize_body (rnd k) s = Inr s1"
        and rec: "Stab rnd (k + 1) s1 = Some res"
        using "1.hyps" res lc s0 by (auto split: sum.splits)
      have k1: "keeps s s1" by (rule Stabilize_body_keeps [OF b inv])
      then have "secondary_from_5 s1" using inv by (simp add: keeps_def)
      then have "keeps s1 s'" using "1.IH" [OF rec] res by blast
      with k1 show ?thesis by (rule keeps_trans)
    qed
  qed
qed

lemma Stabilize_keeps:
  "Stabilize rnd k s = Some (Inr (s', k')) \<Longrightarrow> secondary_from_5 s \<Longrightarrow> keeps s s'"
  using Stabilize_keeps_aux by blast

lemma exec_keeps:
  assumes "exec c s = Some (Inr s')" and "secondary_from_5 s"
  shows "keeps s s'"
proof (cases c)
  case (Call_SelectNode r)
  then show ?thesis using assms by (auto intro: SelectNode_keeps)
next
  case (Call_TransientFault r)
  then show ?thesis using assms by (auto intro: TransientFault_keeps)
next
  case Call_LegalConfig
  then show ?thesis using assms
    by (auto split: sum.splits dest!: LegalConfig_state intro: keeps_refl)
next
  case Call_CheckUnequal
  then show ?thesis using assms by (auto split: sum.splits intro: CheckUnequal_keeps)
next
  case Call_CheckConditions
  then show ?thesis using assms by (auto intro: CheckConditions_keeps)
next
  case (Call_Stabilize rnd)
  then show ?thesis using assms
    by (auto split: option.splits sum.splits intro: Stabilize_keeps)
qed

lemma run_keeps:
  "run cs s = Some (Inr s') \<Longrightarrow> secondary_from_5 s \<Longrightarrow> keeps s s'"
proof (induction cs arbitrary: s)
  case Nil
  then show ?case by (simp add: keeps_refl)
next
  case (Cons c cs)
  from Cons.prems(1) obtain s1 where e: "exec c s = Some (Inr s1)" and r: "run cs s1 = Some (Inr s')"
    by (auto split: option.splits sum.splits)
  have k: "keeps s s1" by (rule exec_keeps [OF e Cons.prems(2)])
  then have "secondary_from_5 s1" using Cons.prems(2) by (simp add: keeps_def)
  then have "keeps s1 s'" by (rule Cons.IH [OF r])
  with k show ?case by (rule keeps_trans)
qed

lemma System_ctor_on_from_5: "System_ctor_on room n = Inr s \<Longrightarrow> secondary_from_5 s"
proof -
  assume a: "System_ctor_on room n = Inr s"
  then have "0 \<le> sint n" "room (nat (sint n))" using System_ctor_on_Inr by blast+
  from System_ctor_on_ok [of n room, OF this] a obtain mem where
    "member_arr s = mem" "map secondary mem = replicate (nat (sint n)) 5" by auto
  then have "\<forall>x \<in> set (map secondary (member_arr s)). x = 5" by simp
  then show ?thesis by (auto simp: secondary_from_5_def list_all_iff)
qed

subsection \<open>The system of one node\<close>

lemma single_faults:
  "\<exists>p. inject_faults rs
       \<lparr>SYSTEM_SIZE = 1,
        member_arr = [\<lparr>primary = q, secondary = 5, left = None, right = Some 1\<rparr>], node = 0\<rparr> =
     Inr \<lparr>SYSTEM_SIZE = 1,
        member_arr = [\<lparr>primary = p, secondary = 5, left = None, right = Some 1\<rparr>], node = 0\<rparr>"
proof (induction rs arbitrary: q)
  case Nil
  then show ?case by simp
next
  case (Cons r rs)
  have "TransientFault r \<lparr>SYSTEM_SIZE = 1,
        member_arr = [\<lparr>primary = q, secondary = 5, left = None, right = Some 1\<rparr>], node = 0\<rparr> =
     Inr \<lparr>SYSTEM_SIZE = 1,
        member_arr = [\<lparr>primary = (if q = 0 then 1 else 0), secondary = 5, left = None, right = Some 1\<rparr>],
        node = 0\<rparr>"
    by (simp add: TransientFault_def SelectNode_def node_Update_def load_def store_def Update_def)
  then show ?case using Cons.IH [of "if q = 0 then 1 else 0"] by simp
qed

lemma Stabilize_legal: "LegalConfig s = Inr (True, s) \<Longrightarrow> Stabilize rnd k s = Some (Inr (s, k))"
  by (subst Stabilize.simps) simp

lemma CheckUnequal_single:
  "CheckUnequal \<lparr>SYSTEM_SIZE = 1,
        member_arr = [\<lparr>primary = p, secondary = 5, left = None, right = Some 1\<rparr>], node = 0\<rparr> =
   Inl OutOfBounds"
  by (simp add: CheckUnequal_def load_def)

lemma CheckUnequal_no_neighbour:
  "load s (node s) = Inr n \<Longrightarrow> left n = None \<Longrightarrow> right n = None \<Longrightarrow> CheckUnequal s = Inl NullPointer"
  by (simp add: CheckUnequal_def)

subsection \<open>Evaluation on the examples\<close>


lemmas rule_defs =
  apply_rule_def CheckUnequal_def CheckConditions_def isLeader_def Max_sec_def
  node_add_secondary_def int_add_def M_def load_ptr_def node_Update_def load_def store_def
  Update_def

lemmas fault_defs = TransientFault_def SelectNode_def node_Update_def load_def store_def Update_def

lemmas legal_defs = LegalConfig_def LegalConfig_loop.simps load_def Equal_def

lemma ctor_three: "System_ctor 3 = Inr (line3 0 0 0 0)"
  by (simp add: System_ctor_def System_ctor_on_def ctor_loop.simps Node_ctor_def numeral_3_eq_3)

lemma ctor_four: "System_ctor 4 = Inr (line4 0 0 0 0 5 5 0)"
  by (simp add: System_ctor_def System_ctor_on_def ctor_loop.simps Node_ctor_def eval_nat_numeral)

subsection \<open>Lines of at least two nodes\<close>

text \<open>
  On a line of at least two nodes linked as the constructor links them, every read
  through a pointer is inside the array, so a call can fail in one way only: by signed
  overflow of a secondary value.
\<close>

lemma ctor_loop_links:
  "ctor_loop N i mem = Inr mem' \<Longrightarrow> length mem = N \<Longrightarrow> j < N \<Longrightarrow>
   left (mem' ! j) = (if j < i then left (mem ! j) else if j = 0 then left (mem ! j) else Some (j - 1)) \<and>
   right (mem' ! j) =
     (if j < i then right (mem ! j) else if j = 0 then Some (j + 1)
      else if j = N - 1 then right (mem ! j) else Some (j + 1))"
proof (induction N i mem rule: ctor_loop.induct)
  case (1 N i mem)
  show ?case
  proof (cases "i < N")
    case False
    then have "mem' = mem" using "1.prems"(1) by (simp add: ctor_loop.simps)
    then show ?thesis using False "1.prems" by simp
  next
    case True
    note lt = True
    have len: "\<not> length mem \<le> i" using lt "1.prems" by simp
    show ?thesis
    proof (cases "i = 0")
      case True
      let ?m = "mem[i := (mem ! i)\<lparr>right := Some (i + 1)\<rparr>]"
      have "ctor_loop N (i + 1) ?m = Inr mem'"
        using "1.prems"(1) lt len True by (subst (asm) ctor_loop.simps) simp
      from "1.IH"(1) [OF lt len True this] "1.prems"
      have "left (mem' ! j) = (if j < i + 1 then left (?m ! j) else if j = 0 then left (?m ! j) else Some (j - 1)) \<and>
   right (mem' ! j) =
     (if j < i + 1 then right (?m ! j) else if j = 0 then Some (j + 1)
      else if j = N - 1 then right (?m ! j) else Some (j + 1))"
        by simp
      then show ?thesis using True lt "1.prems"(2,3)
        by (cases "j = i") (auto simp: nth_list_update)
    next
      case False
      note nz = False
      show ?thesis
      proof (cases "i = N - 1")
        case True
        let ?m = "mem[i := (mem ! i)\<lparr>left := Some (i - 1)\<rparr>]"
        have "ctor_loop N (i + 1) ?m = Inr mem'"
          using "1.prems"(1) lt len nz True by (subst (asm) ctor_loop.simps) simp
        from "1.IH"(2) [OF lt len nz True this] "1.prems"
        have "left (mem' ! j) = (if j < i + 1 then left (?m ! j) else if j = 0 then left (?m ! j) else Some (j - 1)) \<and>
   right (mem' ! j) =
     (if j < i + 1 then right (?m ! j) else if j = 0 then Some (j + 1)
      else if j = N - 1 then right (?m ! j) else Some (j + 1))"
          by simp
        then show ?thesis using True nz lt "1.prems"(2,3)
          by (cases "j = i") (auto simp: nth_list_update)
      next
        case False
        let ?m = "mem[i := (mem ! i)\<lparr>left := Some (i - 1), right := Some (i + 1)\<rparr>]"
        have "ctor_loop N (i + 1) ?m = Inr mem'"
          using "1.prems"(1) lt len nz False by (subst (asm) ctor_loop.simps) simp
        from "1.IH"(3) [OF lt len nz False this] "1.prems"
        have "left (mem' ! j) = (if j < i + 1 then left (?m ! j) else if j = 0 then left (?m ! j) else Some (j - 1)) \<and>
   right (mem' ! j) =
     (if j < i + 1 then right (?m ! j) else if j = 0 then Some (j + 1)
      else if j = N - 1 then right (?m ! j) else Some (j + 1))"
          by simp
        then show ?thesis using False nz lt "1.prems"(2,3)
          by (cases "j = i") (auto simp: nth_list_update)
      qed
    qed
  qed
qed

lemma System_ctor_on_links:
  assumes "System_ctor_on room n = Inr s" and "2 \<le> sint n"
  shows "line_links s"
proof -
  let ?N = "nat (sint n)"
  from assms obtain mem where c: "ctor_loop ?N 0 (replicate ?N Node_ctor) = Inr mem"
    and s: "s = \<lparr>SYSTEM_SIZE = ?N, member_arr = mem, node = 0\<rparr>"
    by (auto simp: System_ctor_on_def split: if_splits sum.splits)
  from ctor_loop_total [of "replicate ?N Node_ctor" ?N 0] c have len: "length mem = ?N" by auto
  have N: "2 \<le> ?N" using assms(2) by simp
  have "\<forall>j < ?N. left (mem ! j) = (if j = 0 then None else Some (j - 1)) \<and>
         right (mem ! j) = (if j = ?N - 1 then None else Some (j + 1))"
  proof (intro allI impI)
    fix j assume j: "j < ?N"
    from ctor_loop_links [OF c _ j] j N
    show "left (mem ! j) = (if j = 0 then None else Some (j - 1)) \<and>
         right (mem ! j) = (if j = ?N - 1 then None else Some (j + 1))"
      by (auto simp: Node_ctor_def)
  qed
  then show ?thesis using s len N by (simp add: line_links_def)
qed


lemma links_load: "line_links s \<Longrightarrow> p < SYSTEM_SIZE s \<Longrightarrow> load s p = Inr (member_arr s ! p)"
  by (simp add: line_links_def load_def)

lemma links_store:
  assumes "line_links s" and "p < SYSTEM_SIZE s"
    and "left n = left (member_arr s ! p)" and "right n = right (member_arr s ! p)"
  shows "store s p n = Inr (s\<lparr>member_arr := (member_arr s)[p := n]\<rparr>) \<and>
         line_links (s\<lparr>member_arr := (member_arr s)[p := n]\<rparr>)"
  using assms by (auto simp: line_links_def store_def nth_list_update)

lemma links_SelectNode: "line_links s \<Longrightarrow> \<exists>s'. SelectNode r s = Inr s' \<and> line_links s'"
  by (auto simp: line_links_def SelectNode_def)

lemma links_node_Update: "line_links s \<Longrightarrow> \<exists>s'. node_Update s = Inr s' \<and> line_links s'"
proof -
  assume l: "line_links s"
  then have n: "node s < SYSTEM_SIZE s" by (simp add: line_links_def)
  from links_store [OF l n, of "Update (member_arr s ! node s)"]
  show ?thesis by (simp add: node_Update_def links_load [OF l n])
qed

lemma links_TransientFault: "line_links s \<Longrightarrow> \<exists>s'. TransientFault r s = Inr s' \<and> line_links s'"
proof -
  assume "line_links s"
  then obtain s1 where "SelectNode r s = Inr s1" "line_links s1" using links_SelectNode by blast
  then show ?thesis using links_node_Update [of s1] by (simp add: TransientFault_def)
qed

lemma links_LegalConfig: "line_links s \<Longrightarrow> \<exists>b. LegalConfig s = Inr (b, s)"
  using LegalConfig_eq [of s] by (simp add: line_links_def)

lemma links_shape:
  assumes "line_links s"
  shows "\<exists>n. load s (node s) = Inr n \<and>
     ((left n = None \<and> (\<exists>ri r. right n = Some ri \<and> load s ri = Inr r)) \<or>
      (right n = None \<and> (\<exists>li l. left n = Some li \<and> load s li = Inr l)) \<or>
      (\<exists>li l ri r. left n = Some li \<and> load s li = Inr l \<and>
                   right n = Some ri \<and> load s ri = Inr r))"
proof -
  let ?n = "member_arr s ! node s"
  have i: "node s < SYSTEM_SIZE s" and N: "2 \<le> SYSTEM_SIZE s"
    and len: "length (member_arr s) = SYSTEM_SIZE s"
    and l: "left ?n = (if node s = 0 then None else Some (node s - 1))"
    and r: "right ?n = (if node s = SYSTEM_SIZE s - 1 then None else Some (node s + 1))"
    using assms by (simp_all add: line_links_def)
  have n: "load s (node s) = Inr ?n" using i len by (simp add: load_def)
  consider "node s = 0" | "node s \<noteq> 0" "node s = SYSTEM_SIZE s - 1"
    | "node s \<noteq> 0" "node s \<noteq> SYSTEM_SIZE s - 1" by blast
  then show ?thesis
  proof cases
    case 1
    then have "left ?n = None" "right ?n = Some 1" "load s 1 = Inr (member_arr s ! 1)"
      using l r N len by (simp_all add: load_def)
    then show ?thesis using n by blast
  next
    case 2
    then have "right ?n = None" "left ?n = Some (node s - 1)"
      "load s (node s - 1) = Inr (member_arr s ! (node s - 1))"
      using l r i len by (simp_all add: load_def)
    then show ?thesis using n by blast
  next
    case 3
    then have "left ?n = Some (node s - 1)"
      "load s (node s - 1) = Inr (member_arr s ! (node s - 1))"
      "right ?n = Some (node s + 1)"
      "load s (node s + 1) = Inr (member_arr s ! (node s + 1))"
      using l r i len by (simp_all add: load_def)
    then show ?thesis using n by blast
  qed
qed

lemma links_CheckUnequal:
  assumes "line_links s"
  shows "\<exists>u s'. CheckUnequal s = Inr (u, s') \<and> line_links s'"
proof -
  from links_node_Update [OF assms] obtain s1 where s1: "node_Update s = Inr s1" "line_links s1"
    by blast
  from links_shape [OF assms] obtain n where n: "load s (node s) = Inr n"
    and sh: "(left n = None \<and> (\<exists>ri r. right n = Some ri \<and> load s ri = Inr r)) \<or>
      (right n = None \<and> (\<exists>li l. left n = Some li \<and> load s li = Inr l)) \<or>
      (\<exists>li l ri r. left n = Some li \<and> load s li = Inr l \<and>
                   right n = Some ri \<and> load s ri = Inr r)"
    by blast
  from sh show ?thesis
  proof (elim disjE conjE exE)
    fix ri r assume "left n = None" "right n = Some ri" "load s ri = Inr r"
    then show ?thesis using n s1 assms by (auto simp: CheckUnequal_def)
  next
    fix li l assume "right n = None" "left n = Some li" "load s li = Inr l"
    then show ?thesis using n s1 assms by (auto simp: CheckUnequal_def)
  next
    fix li l ri r
    assume "left n = Some li" "load s li = Inr l" "right n = Some ri" "load s ri = Inr r"
    then show ?thesis using n s1 assms by (auto simp: CheckUnequal_def)
  qed
qed

lemma links_isLeader: "line_links s \<Longrightarrow> \<exists>b. isLeader s = Inr b"
proof -
  assume "line_links s"
  from links_shape [OF this] obtain n where n: "load s (node s) = Inr n"
    and sh: "(left n = None \<and> (\<exists>ri r. right n = Some ri \<and> load s ri = Inr r)) \<or>
      (right n = None \<and> (\<exists>li l. left n = Some li \<and> load s li = Inr l)) \<or>
      (\<exists>li l ri r. left n = Some li \<and> load s li = Inr l \<and>
                   right n = Some ri \<and> load s ri = Inr r)"
    by blast
  from sh show ?thesis
  proof (elim disjE conjE exE)
    fix ri r assume "left n = None" "right n = Some ri" "load s ri = Inr r"
    then show ?thesis using n by (auto simp: isLeader_def)
  next
    fix li l assume "right n = None" "left n = Some li" "load s li = Inr l"
    then show ?thesis using n by (auto simp: isLeader_def)
  next
    fix li l ri r
    assume "left n = Some li" "load s li = Inr l" "right n = Some ri" "load s ri = Inr r"
    then show ?thesis using n by (auto simp: isLeader_def)
  qed
qed

lemma links_Max_sec: "line_links s \<Longrightarrow> \<exists>m. Max_sec s = Inr m"
proof -
  assume "line_links s"
  from links_shape [OF this] obtain n where n: "load s (node s) = Inr n"
    and sh: "(left n = None \<and> (\<exists>ri r. right n = Some ri \<and> load s ri = Inr r)) \<or>
      (right n = None \<and> (\<exists>li l. left n = Some li \<and> load s li = Inr l)) \<or>
      (\<exists>li l ri r. left n = Some li \<and> load s li = Inr l \<and>
                   right n = Some ri \<and> load s ri = Inr r)"
    by blast
  from sh show ?thesis
  proof (elim disjE conjE exE)
    fix ri r assume "left n = None" "right n = Some ri" "load s ri = Inr r"
    then show ?thesis using n by (auto simp: Max_sec_def)
  next
    fix li l assume "right n = None" "left n = Some li" "load s li = Inr l"
    then show ?thesis using n by (auto simp: Max_sec_def)
  next
    fix li l ri r
    assume "left n = Some li" "load s li = Inr l" "right n = Some ri" "load s ri = Inr r"
    then show ?thesis using n by (auto simp: Max_sec_def)
  qed
qed

lemma int_add_cases: "int_add a b = Inl SignedOverflow \<or> int_add a b = Inr (a + b)"
  by (simp add: int_add_def)

lemma links_node_add_secondary:
  assumes "line_links s"
  shows "node_add_secondary d s = Inl SignedOverflow \<or>
         (\<exists>s'. node_add_secondary d s = Inr s' \<and> line_links s')"
proof -
  have i: "node s < SYSTEM_SIZE s" using assms by (simp add: line_links_def)
  have n: "load s (node s) = Inr (member_arr s ! node s)" by (rule links_load [OF assms i])
  let ?n = "member_arr s ! node s"
  from int_add_cases [of "secondary ?n" d] show ?thesis
  proof
    assume "int_add (secondary ?n) d = Inl SignedOverflow"
    then show ?thesis by (simp add: node_add_secondary_def n)
  next
    assume a: "int_add (secondary ?n) d = Inr (secondary ?n + d)"
    from links_store [OF assms i, of "?n\<lparr>secondary := secondary ?n + d\<rparr>"]
    show ?thesis by (simp add: node_add_secondary_def n a)
  qed
qed

lemma links_CheckConditions:
  assumes "line_links s"
  shows "CheckConditions s = Inl SignedOverflow \<or>
         (\<exists>s'. CheckConditions s = Inr s' \<and> line_links s')"
proof -
  from links_isLeader [OF assms] obtain b where b: "isLeader s = Inr b" by blast
  show ?thesis
  proof (cases b)
    case False
    then show ?thesis using links_node_add_secondary [OF assms, of 1] b
      by (simp add: CheckConditions_def)
  next
    case True
    from links_node_Update [OF assms] obtain s1 where s1: "node_Update s = Inr s1" "line_links s1"
      by blast
    from links_Max_sec [OF s1(2)] obtain m where m: "Max_sec s1 = Inr m" by blast
    from int_add_cases [of m M] show ?thesis
    proof
      assume "int_add m M = Inl SignedOverflow"
      then show ?thesis using True b s1 m by (simp add: CheckConditions_def)
    next
      assume "int_add m M = Inr (m + M)"
      then show ?thesis using True b s1 m links_node_add_secondary [OF s1(2), of "m + M"]
        by (simp add: CheckConditions_def)
    qed
  qed
qed

lemma links_apply_rule:
  assumes "line_links s"
  shows "apply_rule s = Inl SignedOverflow \<or> (\<exists>s'. apply_rule s = Inr s' \<and> line_links s')"
proof -
  from links_CheckUnequal [OF assms] obtain u s1 where
    c: "CheckUnequal s = Inr (u, s1)" and l: "line_links s1" by blast
  show ?thesis using links_CheckConditions [OF l] c l by (cases u) (auto simp: apply_rule_def)
qed

lemma links_Stabilize_body:
  assumes "line_links s"
  shows "Stabilize_body r s = Inl SignedOverflow \<or>
         (\<exists>s'. Stabilize_body r s = Inr s' \<and> line_links s')"
proof -
  from links_SelectNode [OF assms] obtain s1 where
    c: "SelectNode r s = Inr s1" and l: "line_links s1" by blast
  show ?thesis using links_apply_rule [OF l] c by (auto simp: Stabilize_body_def)
qed

lemma links_Stabilize_aux:
  "Stabilize rnd k s = Some res \<Longrightarrow>
   line_links s \<longrightarrow> res = Inl SignedOverflow \<or> (\<exists>s' k'. res = Inr (s', k') \<and> line_links s')"
proof (induction rule: Stabilize.raw_induct [rotated 1, consumes 1])
  case (1 Stab rnd k s res)
  show ?case
  proof
    assume l: "line_links s"
    from links_LegalConfig [OF l] obtain legal where lc: "LegalConfig s = Inr (legal, s)" by blast
    show "res = Inl SignedOverflow \<or> (\<exists>s' k'. res = Inr (s', k') \<and> line_links s')"
    proof (cases legal)
      case True
      then show ?thesis using "1.hyps" lc l by auto
    next
      case False
      from links_Stabilize_body [OF l, of "rnd k"] show ?thesis
      proof
        assume "Stabilize_body (rnd k) s = Inl SignedOverflow"
        then show ?thesis using "1.hyps" lc False by simp
      next
        assume "\<exists>s'. Stabilize_body (rnd k) s = Inr s' \<and> line_links s'"
        then obtain s1 where b: "Stabilize_body (rnd k) s = Inr s1" and l1: "line_links s1"
          by blast
        then have "Stab rnd (k + 1) s1 = Some res" using "1.hyps" lc False by simp
        from "1.IH" [OF this] l1 show ?thesis by blast
      qed
    qed
  qed
qed

lemma links_exec:
  assumes "exec c s = Some res" and "line_links s"
  shows "res = Inl SignedOverflow \<or> (\<exists>s'. res = Inr s' \<and> line_links s')"
proof (cases c)
  case (Call_SelectNode r)
  then show ?thesis using assms links_SelectNode [OF assms(2), of r] by auto
next
  case (Call_TransientFault r)
  then show ?thesis using assms links_TransientFault [OF assms(2), of r] by auto
next
  case Call_LegalConfig
  then show ?thesis using assms links_LegalConfig [OF assms(2)] by auto
next
  case Call_CheckUnequal
  then show ?thesis using assms links_CheckUnequal [OF assms(2)] by auto
next
  case Call_CheckConditions
  then show ?thesis using assms links_CheckConditions [OF assms(2)] by auto
next
  case (Call_Stabilize rnd)
  from assms(1) Call_Stabilize obtain r0 where r0: "Stabilize rnd 0 s = Some r0"
    by (auto split: option.splits)
  from links_Stabilize_aux [OF r0] assms(2)
  have "r0 = Inl SignedOverflow \<or> (\<exists>s' k'. r0 = Inr (s', k') \<and> line_links s')" by blast
  then show ?thesis using assms(1) Call_Stabilize r0 by auto
qed

lemma links_run:
  "run cs s = Some res \<Longrightarrow> line_links s \<Longrightarrow>
   res = Inl SignedOverflow \<or> (\<exists>s'. res = Inr s' \<and> line_links s')"
proof (induction cs arbitrary: s)
  case Nil
  then show ?case by auto
next
  case (Cons c cs)
  from Cons.prems(1) obtain r1 where e: "exec c s = Some r1"
    by (auto split: option.splits)
  from links_exec [OF e Cons.prems(2)] show ?case
  proof
    assume "r1 = Inl SignedOverflow"
    then show ?thesis using Cons.prems(1) e by simp
  next
    assume "\<exists>s'. r1 = Inr s' \<and> line_links s'"
    then obtain s1 where r1: "r1 = Inr s1" and l1: "line_links s1" by blast
    then have "run cs s1 = Some res" using Cons.prems(1) e by simp
    from Cons.IH [OF this l1] show ?thesis .
  qed
qed

subsection \<open>A run that overflows\<close>

text \<open>
  In the line of four nodes with primary values 0, 0, 1, 1, a scheduler that always
  selects node 1 makes that node the leader of a mixed neighbourhood in every pass of
  \<open>Stabilize\<close>: each pass flips it and adds 25 to its secondary value, and the system
  never becomes legal.
\<close>

lemma one_pass:
  assumes "p = 0 \<or> p = 1" and "5 \<le> sint s" and "sint s + 25 \<le> 2147483647"
  shows "Stabilize (rand_const 1) k (line4 0 p 1 1 s 5 nd) =
         Stabilize (rand_const 1) (k + 1) (line4 0 (1 - p) 1 1 (s + 25) 5 1)"
proof -
  have lc: "LegalConfig (line4 0 p 1 1 s 5 nd) = Inr (False, line4 0 p 1 1 s 5 nd)"
    using assms(1) by (auto simp: legal_defs)
  have ia: "int_add s 25 = Inr (s + 25)"
    using assms(2,3) by (intro int_add_ok) simp_all
  have im: "int_add 5 20 = Inr 25" by (simp add: int_add_def)
  have body: "Stabilize_body (rand_const 1 k) (line4 0 p 1 1 s 5 nd) =
      Inr (line4 0 (1 - p) 1 1 (s + 25) 5 1)"
    using assms(1,2) ia im
    by (auto simp: Stabilize_body_def SelectNode_def rand_const_def apply_rule_def
        CheckUnequal_def CheckConditions_def isLeader_def Max_sec_def node_add_secondary_def
        M_def load_ptr_def node_Update_def load_def store_def Update_def)
  show ?thesis
    using lc body by (subst Stabilize.simps) simp
qed

lemma passes:
  "p = 0 \<or> p = 1 \<Longrightarrow> 5 \<le> sint s \<Longrightarrow> sint s + 25 * int n \<le> 2147483647 \<Longrightarrow>
   Stabilize (rand_const 1) k (line4 0 p 1 1 s 5 nd) =
   Stabilize (rand_const 1) (k + n)
     (line4 0 (if even n then p else 1 - p) 1 1 (s + 25 * of_nat n) 5 (if n = 0 then nd else 1))"
proof (induction n arbitrary: p s k nd)
  case 0
  then show ?case by simp
next
  case (Suc n)
  have b: "sint s + 25 \<le> 2147483647" using Suc.prems(3) by simp
  have ia: "int_add s 25 = Inr (s + 25)"
    using Suc.prems(2) b by (intro int_add_ok) simp_all
  have ss: "sint (s + 25) = sint s + 25" using int_add_sint [OF ia] by simp
  have p': "1 - p = 0 \<or> 1 - p = 1" using Suc.prems(1) by auto
  have pp: "1 - (1 - p) = p" by simp
  have "Stabilize (rand_const 1) k (line4 0 p 1 1 s 5 nd) =
        Stabilize (rand_const 1) (k + 1) (line4 0 (1 - p) 1 1 (s + 25) 5 1)"
    by (rule one_pass [OF Suc.prems(1,2) b])
  also have "\<dots> = Stabilize (rand_const 1) (k + 1 + n)
     (line4 0 (if even n then 1 - p else 1 - (1 - p)) 1 1 (s + 25 + 25 * of_nat n) 5
        (if n = 0 then 1 else 1))"
    using Suc.prems(2,3) ss by (intro Suc.IH [OF p']) simp_all
  finally show ?case by (simp add: pp algebra_simps)
qed

lemma last_pass:
  "Stabilize (rand_const 1) k (line4 0 1 1 1 2147483630 5 1) = Some (Inl SignedOverflow)"
proof -
  have lc: "LegalConfig (line4 0 1 1 1 2147483630 5 1) = Inr (False, line4 0 1 1 1 2147483630 5 1)"
    by (simp add: legal_defs)
  have body: "Stabilize_body (rand_const 1 k) (line4 0 1 1 1 2147483630 5 1) = Inl SignedOverflow"
    by (simp add: Stabilize_body_def SelectNode_def rand_const_def rule_defs)
  show ?thesis using lc body by (subst Stabilize.simps) simp
qed

lemma to_the_brink:
  "Stabilize (rand_const 1) 0 (line4 0 0 1 1 5 5 3) =
   Stabilize (rand_const 1) 85899345 (line4 0 1 1 1 2147483630 5 1)"
  using passes [of 0 5 85899345 0 3] by simp

lemma overflow_run:
  "run [Call_TransientFault 2, Call_TransientFault 3, Call_Stabilize (rand_const 1)]
     (line4 0 0 0 0 5 5 0) = Some (Inl SignedOverflow)"
proof -
  have "Stabilize (rand_const 1) 0 (line4 0 0 1 1 5 5 3) = Some (Inl SignedOverflow)"
    by (simp only: to_the_brink last_pass)
  then show ?thesis by (simp add: fault_defs)
qed

section \<open>The claims\<close>

subsection \<open>C1: the leader in the mixed case\<close>

text \<open>
  C1, as stated, fails on the example it gives. In the line of four nodes with primary
  values 0, 0, 1, 1 and all secondary values 5, the rule applied to node 1 flips its
  primary value to 1 and leaves its secondary value at 30, not at 25: line 225 adds
  the maximum of the neighbours plus \<open>M\<close> to the value the node already has.
\<close>

theorem leader_example_secondary_30:
  "apply_rule (line4 0 0 1 1 5 5 1) = Inr (line4 0 1 1 1 30 5 1) \<and>
   apply_rule (line4 0 0 1 1 5 5 1) \<noteq> Inr (line4 0 1 1 1 25 5 1)"
  by (simp add: rule_defs)

text \<open>
  C1, amended. The selected node \<open>n\<close> has a left neighbour \<open>l\<close> and a right neighbour
  \<open>r\<close>, agrees with exactly one of them, and its secondary value is at least each of
  theirs. Then \<open>CheckUnequal\<close> returns false, \<open>isLeader\<close> returns true, and the rule flips
  the primary value of the node and adds to its secondary value the maximum of the two
  neighbours' secondary values plus \<open>M = 20\<close>, provided that sum is an \<open>int\<close>. Nothing
  else in the system changes.
\<close>

theorem leader_rule:
  assumes "load s (node s) = Inr n" and "left n = Some li" and "right n = Some ri"
    and "load s li = Inr l" and "load s ri = Inr r"
    and "(primary n = primary l) \<noteq> (primary n = primary r)"
    and "sint (secondary l) \<le> sint (secondary n)" and "sint (secondary r) \<le> sint (secondary n)"
    and "- (2 ^ 31) \<le> sint (secondary n) + (max (sint (secondary l)) (sint (secondary r)) + 20)"
    and "sint (secondary n) + (max (sint (secondary l)) (sint (secondary r)) + 20) \<le> 2 ^ 31 - 1"
  shows "\<exists>v. sint v = sint (secondary n) + (max (sint (secondary l)) (sint (secondary r)) + 20) \<and>
     CheckUnequal s = Inr (False, s) \<and> isLeader s = Inr True \<and>
     apply_rule s = Inr (s\<lparr>member_arr := (member_arr s)[node s :=
         n\<lparr>primary := (if primary n = 0 then 1 else 0), secondary := v\<rparr>]\<rparr>)"
  using assms by (rule leader_step)

theorem leader_rule_witness:
  "\<exists>v. sint v = 5 + (max 5 5 + 20) \<and>
      CheckUnequal (line4 0 0 1 1 5 5 1) = Inr (False, line4 0 0 1 1 5 5 1) \<and>
      isLeader (line4 0 0 1 1 5 5 1) = Inr True \<and>
      apply_rule (line4 0 0 1 1 5 5 1) = Inr (line4 0 1 1 1 v 5 1)"
  using leader_rule [of "line4 0 0 1 1 5 5 1"
      "\<lparr>primary = 0, secondary = 5, left = Some 0, right = Some 2\<rparr>" 0 2
      "\<lparr>primary = 0, secondary = 5, left = None, right = Some 1\<rparr>"
      "\<lparr>primary = 1, secondary = 5, left = Some 1, right = Some 3\<rparr>"]
  by (simp add: load_def)

subsection \<open>C2: the system of one node\<close>

text \<open>
  C2 at its failing input. The constructor called with 1 returns a system whose only
  node has no left neighbour but a right pointer to index 1, one past the end of the
  array of length 1; reading through that pointer is out of bounds. The constructor
  itself reads and writes inside the array only.
\<close>

theorem System_ctor_single_node:
  "System_ctor 1 =
     Inr \<lparr>SYSTEM_SIZE = 1,
          member_arr = [\<lparr>primary = 0, secondary = 5, left = None, right = Some 1\<rparr>],
          node = 0\<rparr> \<and>
   load_ptr
     \<lparr>SYSTEM_SIZE = 1,
      member_arr = [\<lparr>primary = 0, secondary = 5, left = None, right = Some 1\<rparr>],
      node = 0\<rparr> (Some 1) = Inl OutOfBounds"
  by (simp add: ctor_one load_def)

subsection \<open>C3: the size given to the constructor\<close>

text \<open>
  C3, as stated, fails at size 0: the constructor returns a system without nodes, and
  no error.
\<close>

theorem System_ctor_zero_succeeds:
  "System_ctor 0 = Inr \<lparr>SYSTEM_SIZE = 0, member_arr = [], node = 0\<rparr>"
  by (simp add: System_ctor_def System_ctor_on_def ctor_loop.simps)

text \<open>
  C3, amended. The constructor checks no size. For a negative size the allocation of the
  array fails and no system is produced. For a size from 0 on the outcome is that of
  the allocation alone: when the free store cannot provide the array, construction fails
  and no system is produced; when it can, construction returns a system of that many
  nodes.
\<close>

theorem System_ctor_result:
  "(sint n < 0 \<longrightarrow> System_ctor_on room n = Inl BadArrayNewLength) \<and>
   (0 \<le> sint n \<and> \<not> room (nat (sint n)) \<longrightarrow> System_ctor_on room n = Inl BadAlloc) \<and>
   (0 \<le> sint n \<and> room (nat (sint n)) \<longrightarrow>
      (\<exists>mem. System_ctor_on room n =
                Inr \<lparr>SYSTEM_SIZE = nat (sint n), member_arr = mem, node = 0\<rparr> \<and>
         length mem = nat (sint n)))"
proof (intro conjI impI)
  assume "sint n < 0"
  then show "System_ctor_on room n = Inl BadArrayNewLength" by (simp add: System_ctor_on_def)
next
  assume "0 \<le> sint n \<and> \<not> room (nat (sint n))"
  then show "System_ctor_on room n = Inl BadAlloc" by (simp add: System_ctor_on_def)
next
  assume "0 \<le> sint n \<and> room (nat (sint n))"
  then have "0 \<le> sint n" and "room (nat (sint n))" by simp_all
  from System_ctor_on_ok [of n room, OF this]
  show "\<exists>mem. System_ctor_on room n =
                Inr \<lparr>SYSTEM_SIZE = nat (sint n), member_arr = mem, node = 0\<rparr> \<and>
         length mem = nat (sint n)"
    by blast
qed

theorem System_ctor_result_witness:
  "sint (- 1 :: cint) < 0 \<and> System_ctor_on (room_upto 1000) (- 1) = Inl BadArrayNewLength \<and>
   0 \<le> sint (2147483647 :: cint) \<and> \<not> room_upto 1000 (nat (sint (2147483647 :: cint))) \<and>
   System_ctor_on (room_upto 1000) 2147483647 = Inl BadAlloc \<and>
   0 \<le> sint (3 :: cint) \<and> room_upto 1000 (nat (sint (3 :: cint))) \<and>
   (\<exists>mem. System_ctor_on (room_upto 1000) 3 =
             Inr \<lparr>SYSTEM_SIZE = 3, member_arr = mem, node = 0\<rparr> \<and> length mem = 3)"
  using System_ctor_result [of "- 1" "room_upto 1000"]
    System_ctor_result [of 2147483647 "room_upto 1000"]
    System_ctor_result [of 3 "room_upto 1000"]
  by (simp add: room_upto_def)

subsection \<open>C4: the golden scenario\<close>

text \<open>
  C4. The line of three nodes as constructed, after a fault at node 1, has the primary
  values 0, 1, 0 and is not legal. Node 1 differs from both neighbours, so
  \<open>CheckUnequal\<close> on node 1 flips it and returns true; the rule applied once to node 1
  gives the primary values 0, 0, 0 with all secondary values still 5, and \<open>LegalConfig\<close>
  then returns true.
\<close>

theorem golden_scenario:
  "System_ctor 3 = Inr (line3 0 0 0 0) \<and>
   TransientFault 1 (line3 0 0 0 0) = Inr (line3 0 1 0 1) \<and>
   LegalConfig (line3 0 1 0 1) = Inr (False, line3 0 1 0 1) \<and>
   SelectNode 1 (line3 0 1 0 1) = Inr (line3 0 1 0 1) \<and>
   CheckUnequal (line3 0 1 0 1) = Inr (True, line3 0 0 0 1) \<and>
   apply_rule (line3 0 1 0 1) = Inr (line3 0 0 0 1) \<and>
   Stabilize_body 1 (line3 0 1 0 1) = Inr (line3 0 0 0 1) \<and>
   LegalConfig (line3 0 0 0 1) = Inr (True, line3 0 0 0 1)"
  by (simp add: ctor_three fault_defs legal_defs rule_defs Stabilize_body_def)


subsection \<open>C5: the convergence check\<close>

text \<open>
  C5. On a system whose array has \<open>SYSTEM_SIZE\<close> nodes, \<open>LegalConfig\<close> returns true if and
  only if the primary value of every node equals that of node 0, and it returns the
  system as it received it. Overwriting the secondary values in any way does not change
  the answer. For a system of one node the answer is true.
\<close>

theorem LegalConfig_iff_all_equal:
  assumes "length (member_arr s) = SYSTEM_SIZE s"
  shows "LegalConfig s =
       Inr ((\<forall>n \<in> set (member_arr s). primary n = primary (member_arr s ! 0)), s) \<and>
     LegalConfig (s\<lparr>member_arr := map (\<lambda>n. n\<lparr>secondary := f n\<rparr>) (member_arr s)\<rparr>) =
       Inr ((\<forall>n \<in> set (member_arr s). primary n = primary (member_arr s ! 0)),
            s\<lparr>member_arr := map (\<lambda>n. n\<lparr>secondary := f n\<rparr>) (member_arr s)\<rparr>) \<and>
     (SYSTEM_SIZE s = 1 \<longrightarrow> LegalConfig s = Inr (True, s))"
proof (intro conjI impI)
  show "LegalConfig s =
       Inr ((\<forall>n \<in> set (member_arr s). primary n = primary (member_arr s ! 0)), s)"
    by (rule LegalConfig_eq [OF assms])
next
  let ?t = "s\<lparr>member_arr := map (\<lambda>n. n\<lparr>secondary := f n\<rparr>) (member_arr s)\<rparr>"
  have len: "length (member_arr ?t) = SYSTEM_SIZE ?t" using assms by simp
  have "(\<forall>n \<in> set (member_arr ?t). primary n = primary (member_arr ?t ! 0)) =
        (\<forall>n \<in> set (member_arr s). primary n = primary (member_arr s ! 0))"
  proof (cases "member_arr s")
    case Nil
    then show ?thesis by simp
  next
    case (Cons a as)
    then show ?thesis by simp
  qed
  then show "LegalConfig ?t =
       Inr ((\<forall>n \<in> set (member_arr s). primary n = primary (member_arr s ! 0)), ?t)"
    using LegalConfig_eq [OF len] by simp
next
  assume "SYSTEM_SIZE s = 1"
  then show "LegalConfig s = Inr (True, s)" by (intro LegalConfig_small) simp
qed

theorem LegalConfig_iff_all_equal_witness:
  "length (member_arr (line3 0 1 0 1)) = SYSTEM_SIZE (line3 0 1 0 1) \<and>
   LegalConfig (line3 0 1 0 1) = Inr (False, line3 0 1 0 1) \<and>
   length (member_arr (line3 1 1 1 2)) = SYSTEM_SIZE (line3 1 1 1 2) \<and>
   LegalConfig (line3 1 1 1 2) = Inr (True, line3 1 1 1 2)"
  using LegalConfig_iff_all_equal [of "line3 0 1 0 1" "\<lambda>n. 7"]
    LegalConfig_iff_all_equal [of "line3 1 1 1 2" "\<lambda>n. 7"]
  by simp

subsection \<open>C6: the secondary values never decrease\<close>

text \<open>
  C6, as stated, fails: a run can reach the point where the addition of line 225 leaves
  the range of \<open>int\<close>. Construct the line of four nodes, inject faults at nodes 2 and 3,
  and let \<open>Stabilize\<close> run with a scheduler that always selects node 1. After 85899345
  passes node 1 holds the secondary value 2147483630 and the system is still not legal;
  the next application of the rule adds 25 to it, which is undefined behaviour, and the
  32-bit sum is the smaller value -2147483641.
\<close>

theorem secondary_overflow_run:
  "System_ctor 4 = Inr (line4 0 0 0 0 5 5 0) \<and>
   run [Call_TransientFault 2, Call_TransientFault 3, Call_Stabilize (rand_const 1)]
     (line4 0 0 0 0 5 5 0) = Some (Inl SignedOverflow) \<and>
   Stabilize (rand_const 1) 0 (line4 0 0 1 1 5 5 3) =
     Stabilize (rand_const 1) 85899345 (line4 0 1 1 1 2147483630 5 1) \<and>
   apply_rule (line4 0 1 1 1 2147483630 5 1) = Inl SignedOverflow \<and>
   sint (2147483630 + (5 + M) :: cint) = - 2147483641"
proof (intro conjI)
  show "System_ctor 4 = Inr (line4 0 0 0 0 5 5 0)" by (rule ctor_four)
  show "run [Call_TransientFault 2, Call_TransientFault 3, Call_Stabilize (rand_const 1)]
     (line4 0 0 0 0 5 5 0) = Some (Inl SignedOverflow)"
    by (rule overflow_run)
  show "Stabilize (rand_const 1) 0 (line4 0 0 1 1 5 5 3) =
     Stabilize (rand_const 1) 85899345 (line4 0 1 1 1 2147483630 5 1)"
    by (rule to_the_brink)
  show "apply_rule (line4 0 1 1 1 2147483630 5 1) = Inl SignedOverflow"
    by (simp add: rule_defs)
  show "sint (2147483630 + (5 + M) :: cint) = - 2147483641"
    by (simp add: M_def)
qed

text \<open>
  C6, amended. Take a system the constructor returns, on any free store, and make any
  sequence of calls of \<open>SelectNode\<close>, \<open>TransientFault\<close>, \<open>LegalConfig\<close>, \<open>CheckUnequal\<close>,
  \<open>CheckConditions\<close> and \<open>Stabilize\<close> on it, and then any second sequence. When both
  sequences return, every secondary value after the first is at least 5, and every
  secondary value after the second is at least what it was after the first. On a line of
  at least two nodes a sequence of calls that fails has failed by signed overflow of a
  secondary value, and in no other way.
\<close>

theorem secondary_never_decreases:
  assumes "System_ctor_on room n = Inr s0"
  shows "(run cs1 s0 = Some (Inr s1) \<and> run cs2 s1 = Some (Inr s2) \<longrightarrow>
            secondary_from_5 s1 \<and> secondary_le s1 s2) \<and>
         (2 \<le> sint n \<and> run cs1 s0 = Some (Inl e) \<longrightarrow> e = SignedOverflow)"
proof (rule conjI)
  show "run cs1 s0 = Some (Inr s1) \<and> run cs2 s1 = Some (Inr s2) \<longrightarrow>
            secondary_from_5 s1 \<and> secondary_le s1 s2"
  proof
    assume "run cs1 s0 = Some (Inr s1) \<and> run cs2 s1 = Some (Inr s2)"
    then have r1: "run cs1 s0 = Some (Inr s1)" and r2: "run cs2 s1 = Some (Inr s2)"
      by simp_all
    have s0: "secondary_from_5 s0" by (rule System_ctor_on_from_5 [OF assms])
    have "keeps s0 s1" by (rule run_keeps [OF r1 s0])
    then have s1: "secondary_from_5 s1" using s0 by (simp add: keeps_def)
    have "keeps s1 s2" by (rule run_keeps [OF r2 s1])
    then show "secondary_from_5 s1 \<and> secondary_le s1 s2" using s1 by (simp add: keeps_def)
  qed
next
  show "2 \<le> sint n \<and> run cs1 s0 = Some (Inl e) \<longrightarrow> e = SignedOverflow"
  proof
    assume f: "2 \<le> sint n \<and> run cs1 s0 = Some (Inl e)"
    then have n2: "2 \<le> sint n" and rf: "run cs1 s0 = Some (Inl e)"
      by (rule conjunct1, rule conjunct2)
    have "line_links s0" by (rule System_ctor_on_links [OF assms n2])
    from links_run [OF rf this] show "e = SignedOverflow" by simp
  qed
qed

theorem secondary_never_decreases_witness:
  "System_ctor_on (room_upto 4) 4 = Inr (line4 0 0 0 0 5 5 0) \<and>
   run [Call_TransientFault 2, Call_TransientFault 3] (line4 0 0 0 0 5 5 0) =
     Some (Inr (line4 0 0 1 1 5 5 3)) \<and>
   run [Call_LegalConfig, Call_SelectNode 1, Call_CheckUnequal, Call_CheckConditions,
        Call_SelectNode 2, Call_CheckUnequal] (line4 0 0 1 1 5 5 3) =
     Some (Inr (line4 0 1 1 1 30 5 2)) \<and>
   secondary_from_5 (line4 0 0 1 1 5 5 3) \<and>
   secondary_le (line4 0 0 1 1 5 5 3) (line4 0 1 1 1 30 5 2) \<and>
   2 \<le> sint (4 :: cint) \<and>
   run [Call_TransientFault 2, Call_TransientFault 3, Call_Stabilize (rand_const 1)]
     (line4 0 0 0 0 5 5 0) = Some (Inl SignedOverflow) \<and>
   SignedOverflow = SignedOverflow"
proof -
  have h1: "System_ctor_on (room_upto 4) 4 = Inr (line4 0 0 0 0 5 5 0)"
    by (simp add: System_ctor_on_def room_upto_def ctor_loop.simps Node_ctor_def eval_nat_numeral)
  have h2: "run [Call_TransientFault 2, Call_TransientFault 3] (line4 0 0 0 0 5 5 0) =
     Some (Inr (line4 0 0 1 1 5 5 3))"
    by (simp add: fault_defs)
  have h3: "run [Call_LegalConfig, Call_SelectNode 1, Call_CheckUnequal, Call_CheckConditions,
        Call_SelectNode 2, Call_CheckUnequal] (line4 0 0 1 1 5 5 3) =
     Some (Inr (line4 0 1 1 1 30 5 2))"
    by (simp add: legal_defs rule_defs SelectNode_def)
  have h4: "run [Call_TransientFault 2, Call_TransientFault 3, Call_Stabilize (rand_const 1)]
     (line4 0 0 0 0 5 5 0) = Some (Inl SignedOverflow)"
    by (rule overflow_run)
  have h5: "2 \<le> sint (4 :: cint)" by simp
  from secondary_never_decreases [OF h1,
      of "[Call_TransientFault 2, Call_TransientFault 3]" "line4 0 0 1 1 5 5 3"
         "[Call_LegalConfig, Call_SelectNode 1, Call_CheckUnequal, Call_CheckConditions,
           Call_SelectNode 2, Call_CheckUnequal]" "line4 0 1 1 1 30 5 2" SignedOverflow] h2 h3
  have a: "secondary_from_5 (line4 0 0 1 1 5 5 3) \<and>
      secondary_le (line4 0 0 1 1 5 5 3) (line4 0 1 1 1 30 5 2)"
    by blast
  from secondary_never_decreases [OF h1,
      of "[Call_TransientFault 2, Call_TransientFault 3, Call_Stabilize (rand_const 1)]"
         "line4 0 0 1 1 5 5 3" "[]" "line4 0 0 1 1 5 5 3" SignedOverflow] h4 h5
  have b: "SignedOverflow = SignedOverflow" by blast
  from a b h1 h2 h3 h4 h5 show ?thesis by blast
qed

subsection \<open>C7: the follower in the mixed case\<close>

text \<open>
  C7. The selected node \<open>n\<close> has a left neighbour \<open>l\<close> and a right neighbour \<open>r\<close>, agrees
  with exactly one of them, and its secondary value is less than that of one of them.
  Then \<open>CheckUnequal\<close> returns false, \<open>isLeader\<close> returns false, and the rule returns the
  system in which the secondary value of the node is one more and nothing else has
  changed: its primary value, its pointers and all other nodes are as before.
\<close>

theorem follower_rule:
  assumes "load s (node s) = Inr n" and "left n = Some li" and "right n = Some ri"
    and "load s li = Inr l" and "load s ri = Inr r"
    and "(primary n = primary l) \<noteq> (primary n = primary r)"
    and "sint (secondary n) < sint (secondary l) \<or> sint (secondary n) < sint (secondary r)"
  shows "CheckUnequal s = Inr (False, s) \<and> isLeader s = Inr False \<and>
     sint (secondary n + 1) = sint (secondary n) + 1 \<and>
     apply_rule s = Inr (s\<lparr>member_arr := (member_arr s)[node s := n\<lparr>secondary := secondary n + 1\<rparr>]\<rparr>)"
  using assms by (rule follower_step)

theorem follower_rule_witness:
  "CheckUnequal (line4 0 0 1 1 55 5 2) = Inr (False, line4 0 0 1 1 55 5 2) \<and>
   isLeader (line4 0 0 1 1 55 5 2) = Inr False \<and>
   apply_rule (line4 0 0 1 1 55 5 2) = Inr (line4 0 0 1 1 55 6 2)"
  using follower_rule [of "line4 0 0 1 1 55 5 2"
      "\<lparr>primary = 1, secondary = 5, left = Some 1, right = Some 3\<rparr>" 1 3
      "\<lparr>primary = 0, secondary = 55, left = Some 0, right = Some 2\<rparr>"
      "\<lparr>primary = 1, secondary = 5, left = Some 2, right = None\<rparr>"]
  by (simp add: load_def)

subsection \<open>C8: fault injection\<close>

text \<open>
  C8. On a system of at least one node, \<open>TransientFault\<close> points \<open>node\<close> at the node the
  scheduler selects, \<open>rand() % SYSTEM_SIZE\<close>, and flips the primary value of that node:
  0 becomes 1 and anything else becomes 0. The secondary value and the pointers of that
  node, and every other node, stay as they are.
\<close>

theorem TransientFault_frame:
  assumes "length (member_arr s) = SYSTEM_SIZE s" and "0 < SYSTEM_SIZE s"
  shows "TransientFault r s =
     Inr (s\<lparr>node := r mod SYSTEM_SIZE s,
            member_arr := (member_arr s)[r mod SYSTEM_SIZE s :=
              (member_arr s ! (r mod SYSTEM_SIZE s))
                \<lparr>primary := (if primary (member_arr s ! (r mod SYSTEM_SIZE s)) = 0 then 1 else 0)\<rparr>]\<rparr>)"
  using TransientFault_eq [OF assms, of r] by (simp add: Update_def)

theorem TransientFault_frame_witness:
  "length (member_arr (line3 0 0 0 0)) = SYSTEM_SIZE (line3 0 0 0 0) \<and>
   0 < SYSTEM_SIZE (line3 0 0 0 0) \<and>
   TransientFault 7 (line3 0 0 0 0) = Inr (line3 0 1 0 1)"
  using TransientFault_frame [of "line3 0 0 0 0" 7]
  by simp

subsection \<open>C9: end nodes\<close>

text \<open>
  C9. The selected node \<open>n\<close> has exactly one neighbour \<open>m\<close>, on its right or on its left.
  Then \<open>CheckUnequal\<close> returns true, so the rule never calls \<open>CheckConditions\<close>: it returns
  the system unchanged when the two primary values agree, and with the primary value of
  the node flipped, and nothing else changed, when they differ.
\<close>

theorem endpoint_never_arbitrates:
  assumes "load s (node s) = Inr n"
    and "left n = None \<and> right n = Some i \<or> left n = Some i \<and> right n = None"
    and "load s i = Inr m"
  shows "CheckUnequal s =
       Inr (True, if primary n = primary m then s
                  else s\<lparr>member_arr := (member_arr s)[node s :=
                         n\<lparr>primary := (if primary n = 0 then 1 else 0)\<rparr>]\<rparr>) \<and>
     apply_rule s =
       Inr (if primary n = primary m then s
            else s\<lparr>member_arr := (member_arr s)[node s :=
                   n\<lparr>primary := (if primary n = 0 then 1 else 0)\<rparr>]\<rparr>)"
  using CheckUnequal_endpoint [OF assms] by (simp add: apply_rule_def Update_def)

theorem endpoint_never_arbitrates_witness:
  "CheckUnequal (line3 1 0 0 0) = Inr (True, line3 0 0 0 0) \<and>
   apply_rule (line3 1 0 0 0) = Inr (line3 0 0 0 0) \<and>
   CheckUnequal (line3 0 0 0 2) = Inr (True, line3 0 0 0 2) \<and>
   apply_rule (line3 0 0 0 2) = Inr (line3 0 0 0 2)"
  using endpoint_never_arbitrates [of "line3 1 0 0 0"
      "\<lparr>primary = 1, secondary = 5, left = None, right = Some 1\<rparr>" 1
      "\<lparr>primary = 0, secondary = 5, left = Some 0, right = Some 2\<rparr>"]
    endpoint_never_arbitrates [of "line3 0 0 0 2"
      "\<lparr>primary = 0, secondary = 5, left = Some 1, right = None\<rparr>" 1
      "\<lparr>primary = 0, secondary = 5, left = Some 0, right = Some 2\<rparr>"]
  by (simp add: load_def)

subsection \<open>C10: the system of one node is always legal\<close>

text \<open>
  C10. The constructor called with 1 returns a system, and after any sequence of fault
  injections on it the system still has one node, \<open>LegalConfig\<close> returns true, and
  \<open>Stabilize\<close> returns at once with the system unchanged and without a single call of
  \<open>rand()\<close>, that is, without running its body. \<open>CheckUnequal\<close> is therefore never called
  on that node. A call would fail there, and it fails on every node that has neither a
  left nor a right neighbour: no branch of \<open>CheckUnequal\<close> handles such a node.
\<close>

theorem single_node_always_legal:
  "(\<exists>s0. System_ctor 1 = Inr s0 \<and>
     (\<forall>rs. \<exists>s. inject_faults rs s0 = Inr s \<and> SYSTEM_SIZE s = 1 \<and>
        LegalConfig s = Inr (True, s) \<and>
        (\<forall>rnd k. Stabilize rnd k s = Some (Inr (s, k))) \<and>
        CheckUnequal s = Inl OutOfBounds)) \<and>
   (\<forall>s n. load s (node s) = Inr n \<and> left n = None \<and> right n = None \<longrightarrow>
      CheckUnequal s = Inl NullPointer)"
proof -
  let ?init = "\<lparr>SYSTEM_SIZE = 1,
      member_arr = [\<lparr>primary = 0, secondary = 5, left = None, right = Some 1\<rparr>], node = 0\<rparr>"
  have c: "System_ctor 1 = Inr ?init" by (rule ctor_one)
  have "\<forall>rs. \<exists>s. inject_faults rs ?init = Inr s \<and> SYSTEM_SIZE s = 1 \<and>
        LegalConfig s = Inr (True, s) \<and>
        (\<forall>rnd k. Stabilize rnd k s = Some (Inr (s, k))) \<and>
        CheckUnequal s = Inl OutOfBounds"
  proof
    fix rs
    from single_faults [of rs 0] obtain p where
      f: "inject_faults rs ?init =
       Inr \<lparr>SYSTEM_SIZE = 1,
          member_arr = [\<lparr>primary = p, secondary = 5, left = None, right = Some 1\<rparr>], node = 0\<rparr>"
      by blast
    let ?cur = "\<lparr>SYSTEM_SIZE = 1,
          member_arr = [\<lparr>primary = p, secondary = 5, left = None, right = Some 1\<rparr>], node = 0\<rparr>"
    have l: "LegalConfig ?cur = Inr (True, ?cur)" by (rule LegalConfig_small) simp
    have "\<forall>rnd k. Stabilize rnd k ?cur = Some (Inr (?cur, k))"
      using Stabilize_legal [OF l] by blast
    then have "inject_faults rs ?init = Inr ?cur \<and> SYSTEM_SIZE ?cur = 1 \<and>
        LegalConfig ?cur = Inr (True, ?cur) \<and>
        (\<forall>rnd k. Stabilize rnd k ?cur = Some (Inr (?cur, k))) \<and>
        CheckUnequal ?cur = Inl OutOfBounds"
      using f l CheckUnequal_single [of p] by simp
    then show "\<exists>s. inject_faults rs ?init = Inr s \<and> SYSTEM_SIZE s = 1 \<and>
        LegalConfig s = Inr (True, s) \<and>
        (\<forall>rnd k. Stabilize rnd k s = Some (Inr (s, k))) \<and>
        CheckUnequal s = Inl OutOfBounds"
      by (rule exI)
  qed
  with c have "\<exists>s0. System_ctor 1 = Inr s0 \<and>
     (\<forall>rs. \<exists>s. inject_faults rs s0 = Inr s \<and> SYSTEM_SIZE s = 1 \<and>
        LegalConfig s = Inr (True, s) \<and>
        (\<forall>rnd k. Stabilize rnd k s = Some (Inr (s, k))) \<and>
        CheckUnequal s = Inl OutOfBounds)"
    by blast
  moreover have "\<forall>s n. load s (node s) = Inr n \<and> left n = None \<and> right n = None \<longrightarrow>
      CheckUnequal s = Inl NullPointer"
    by (simp add: CheckUnequal_no_neighbour)
  ultimately show ?thesis by (rule conjI)
qed

theorem single_node_always_legal_witness:
  "load \<lparr>SYSTEM_SIZE = 1, member_arr = [Node_ctor], node = 0\<rparr> 0 = Inr Node_ctor \<and>
   left Node_ctor = None \<and> right Node_ctor = None \<and>
   CheckUnequal \<lparr>SYSTEM_SIZE = 1, member_arr = [Node_ctor], node = 0\<rparr> = Inl NullPointer"
  using single_node_always_legal [THEN conjunct2, rule_format,
      of "\<lparr>SYSTEM_SIZE = 1, member_arr = [Node_ctor], node = 0\<rparr>" Node_ctor]
  by (simp add: load_def Node_ctor_def)


end
